theory Spec2Isabelle
  imports Main "HOL-Library.Sublist"
begin

section \<open>Data model\<close>

text \<open>
  A candidate is one filling of a line (a numpy boolean array in the source), a domain
  is the Python list of the candidates still possible for one line. Reading or writing
  a cell outside an array or a list raises \<open>IndexError\<close> in the source; every
  such place is a branch of the model.
\<close>

datatype error = IndexError

type_synonym candidate = "bool list"
type_synonym domain = "candidate list"

section \<open>Line domain generation\<close>

text \<open>
  \<open>row_copy[k] = True\<close> on a numpy array: an index from \<open>-len\<close> up to \<open>-1\<close> counts
  from the end, anything else outside \<open>0 .. len - 1\<close> raises.
\<close>

definition set_cell :: "candidate \<Rightarrow> int \<Rightarrow> error + candidate" where
  "set_cell row k =
     (let n = int (length row)
      in if 0 \<le> k \<and> k < n then Inr (row[nat k := True])
         else if - n \<le> k \<and> k < 0 then Inr (row[nat (k + n) := True])
         else Inl IndexError)"

text \<open>The inner loop \<open>for j in range(nums[index]): row_copy[i + j] = True\<close>.\<close>

fun fill :: "candidate \<Rightarrow> int \<Rightarrow> int list \<Rightarrow> error + candidate" where
  "fill row i [] = Inr row"
| "fill row i (j # js) =
     (case set_cell row (i + j) of
        Inl e \<Rightarrow> Inl e
      | Inr row' \<Rightarrow> fill row' i js)"

text \<open>
  \<open>generateDomainHelper\<close> and its loop \<open>for i in range(start, end)\<close>. The list
  \<open>domain\<close> that the source appends to is passed in and returned. The first argument
  is \<open>self.size\<close>; \<open>remaining\<close> is the source's \<open>sum\<close>, \<open>bound\<close> its \<open>end\<close>.
\<close>

function generateDomainHelper ::
    "nat \<Rightarrow> int list \<Rightarrow> domain \<Rightarrow> candidate \<Rightarrow> int \<Rightarrow> int \<Rightarrow> nat \<Rightarrow> int \<Rightarrow> error + domain"
  and generateDomainLoop ::
    "nat \<Rightarrow> int list \<Rightarrow> domain \<Rightarrow> candidate \<Rightarrow> nat \<Rightarrow> int \<Rightarrow> int \<Rightarrow> int \<Rightarrow> error + domain"
where
  "generateDomainHelper N nums domain row last_start last_num index remaining =
     (if remaining = 0 then Inr (domain @ [row])
      else if length nums \<le> index then Inl IndexError
      else
        let remaining' = remaining - nums ! index;
            start = (if last_start = - 1 then 0 else last_start + last_num + 1);
            bound = int N - remaining' - int (length nums) + int index - nums ! index + 2;
            stop = (if start = bound then bound + 1 else bound)
        in generateDomainLoop N nums domain row index remaining' start stop)"
| "generateDomainLoop N nums domain row index remaining i bound =
     (if i < bound then
        (if length nums \<le> index then Inl IndexError
         else
           (case fill row i [0 .. nums ! index - 1] of
              Inl e \<Rightarrow> Inl e
            | Inr row_copy \<Rightarrow>
                (case generateDomainHelper N nums domain row_copy i (nums ! index) (index + 1) remaining of
                   Inl e \<Rightarrow> Inl e
                 | Inr domain' \<Rightarrow> generateDomainLoop N nums domain' row index remaining (i + 1) bound)))
      else Inr domain)"
  by pat_completeness auto
termination
  by (relation "inv_image (less_than <*lex*> less_than <*lex*> less_than)
        (\<lambda>x. case x of
           Inl (N, nums, domain, row, last_start, last_num, index, remaining) \<Rightarrow>
             (length nums - index, Suc 0, 0)
         | Inr (N, nums, domain, row, index, remaining, i, bound) \<Rightarrow>
             (length nums - index, 0, nat (bound - i)))")
     auto

declare generateDomainHelper.simps [simp del]
declare generateDomainLoop.simps [simp del]

definition generateDomain :: "nat \<Rightarrow> int list \<Rightarrow> error + domain" where
  "generateDomain N nums =
     generateDomainHelper N nums [] (replicate N False) (- 1) (- 1) 0 (sum_list nums)"

section \<open>Solver state\<close>

text \<open>
  The attributes of \<open>NonogramSolver\<close>. \<open>size_n\<close> is \<open>self.size\<close>; the
  two known-sets and \<open>known_intersects\<close> are Python sets, \<open>len\<close> of a set is
  \<open>card\<close>.
\<close>

record solver =
  row_domains :: "domain list"
  col_domains :: "domain list"
  known_rows :: "nat set"
  known_cols :: "nat set"
  known_intersects :: "(bool \<times> nat \<times> nat) set"
  size_n :: nat
  rows :: "int list list"
  cols :: "int list list"
  is_searching_rows :: bool

text \<open>\<open>__init__\<close>, with the three values \<open>read_file\<close> returns taken as arguments.\<close>

definition init :: "nat \<Rightarrow> int list list \<Rightarrow> int list list \<Rightarrow> solver" where
  "init n rs cs =
     \<lparr>row_domains = [], col_domains = [], known_rows = {}, known_cols = {},
      known_intersects = {}, size_n = n, rows = rs, cols = cs, is_searching_rows = True\<rparr>"

text \<open>
  \<open>reduceDomains\<close> receives \<open>self.row_domains\<close>, \<open>self.col_domains\<close>,
  \<open>self.known_rows\<close> and \<open>self.known_cols\<close> by reference and mutates them in
  place. A reference is modelled by the name of the attribute it points to, read and
  written through the state, so that two arguments naming the same attribute alias as
  they do in the source.
\<close>

datatype domains_ref = Row_domains | Col_domains
datatype known_ref = Known_rows | Known_cols

fun get_domains :: "solver \<Rightarrow> domains_ref \<Rightarrow> domain list" where
  "get_domains s Row_domains = row_domains s"
| "get_domains s Col_domains = col_domains s"

fun put_domains :: "solver \<Rightarrow> domains_ref \<Rightarrow> domain list \<Rightarrow> solver" where
  "put_domains s Row_domains ds = s\<lparr>row_domains := ds\<rparr>"
| "put_domains s Col_domains ds = s\<lparr>col_domains := ds\<rparr>"

fun get_known :: "solver \<Rightarrow> known_ref \<Rightarrow> nat set" where
  "get_known s Known_rows = known_rows s"
| "get_known s Known_cols = known_cols s"

fun add_known :: "solver \<Rightarrow> known_ref \<Rightarrow> nat \<Rightarrow> solver" where
  "add_known s Known_rows i = s\<lparr>known_rows := insert i (known_rows s)\<rparr>"
| "add_known s Known_cols i = s\<lparr>known_cols := insert i (known_cols s)\<rparr>"

section \<open>Propagation\<close>

text \<open>
  \<open>del unknown_domains[i][j]\<close> for every \<open>j\<close>, from the last index down, whose
  candidate in the snapshot \<open>list(enumerate(unknown_domains[i]))\<close> is filled at
  \<open>index\<close>. The last argument counts the entries still to visit.
\<close>

fun reduceNeighborDomains_inner :: "domain \<Rightarrow> domain \<Rightarrow> nat \<Rightarrow> nat \<Rightarrow> error + domain" where
  "reduceNeighborDomains_inner snapshot unknown index 0 = Inr unknown"
| "reduceNeighborDomains_inner snapshot unknown index (Suc j) =
     (if length (snapshot ! j) \<le> index then Inl IndexError
      else if snapshot ! j ! index
        then reduceNeighborDomains_inner snapshot (take j unknown @ drop (Suc j) unknown) index j
        else reduceNeighborDomains_inner snapshot unknown index j)"

text \<open>
  The loop \<open>for i, value in enumerate(known_domain)\<close>; the condition is evaluated left
  to right, so \<open>unknown_domains[i]\<close> is only read for an empty cell.
\<close>

fun reduceNeighborDomains_loop ::
    "solver \<Rightarrow> (nat \<times> bool) list \<Rightarrow> domain list \<Rightarrow> nat \<Rightarrow> error + domain list" where
  "reduceNeighborDomains_loop s [] unknown_domains index = Inr unknown_domains"
| "reduceNeighborDomains_loop s ((i, v) # rest) unknown_domains index =
     (if \<not> v then
        (if length unknown_domains \<le> i then Inl IndexError
         else if 1 < length (unknown_domains ! i)
                 \<and> (is_searching_rows s, index, i) \<notin> known_intersects s
           then (case reduceNeighborDomains_inner (unknown_domains ! i) (unknown_domains ! i) index
                        (length (unknown_domains ! i)) of
                   Inl e \<Rightarrow> Inl e
                 | Inr d \<Rightarrow> reduceNeighborDomains_loop s rest (unknown_domains[i := d]) index)
           else reduceNeighborDomains_loop s rest unknown_domains index)
      else reduceNeighborDomains_loop s rest unknown_domains index)"

definition reduceNeighborDomains ::
    "solver \<Rightarrow> candidate \<Rightarrow> domain list \<Rightarrow> nat \<Rightarrow> error + domain list" where
  "reduceNeighborDomains s known_domain unknown_domains index =
     reduceNeighborDomains_loop s (enumerate 0 known_domain) unknown_domains index"

text \<open>\<open>for i in reversed(range(len(domain)))\<close>, deleting in place.\<close>

fun reduceDomain_loop :: "domain \<Rightarrow> nat \<Rightarrow> bool \<Rightarrow> nat \<Rightarrow> error + domain" where
  "reduceDomain_loop domain index v 0 = Inr domain"
| "reduceDomain_loop domain index v (Suc i) =
     (if length (domain ! i) \<le> index then Inl IndexError
      else if domain ! i ! index \<noteq> v
        then reduceDomain_loop (take i domain @ drop (Suc i) domain) index v i
        else reduceDomain_loop domain index v i)"

definition reduceDomain :: "domain \<Rightarrow> nat \<Rightarrow> bool \<Rightarrow> error + domain" where
  "reduceDomain domain index v =
     (if length domain = 1 then Inr domain
      else reduceDomain_loop domain index v (length domain))"

text \<open>
  The scan \<open>for j in domain\<close> with its \<open>break\<close> once both flags are down, then the
  loop over the positions \<open>range(len(domain[0]))\<close>.
\<close>

fun getDomainIntersects_scan :: "domain \<Rightarrow> nat \<Rightarrow> bool \<Rightarrow> bool \<Rightarrow> error + bool \<times> bool" where
  "getDomainIntersects_scan [] i all_true all_false = Inr (all_true, all_false)"
| "getDomainIntersects_scan (j # js) i all_true all_false =
     (if \<not> all_true \<and> \<not> all_false then Inr (all_true, all_false)
      else if length j \<le> i then Inl IndexError
      else if \<not> j ! i then getDomainIntersects_scan js i False all_false
      else getDomainIntersects_scan js i all_true False)"

fun getDomainIntersects_loop ::
    "solver \<Rightarrow> domain \<Rightarrow> nat \<Rightarrow> nat list \<Rightarrow> (nat \<times> bool) list \<Rightarrow> error + (nat \<times> bool) list" where
  "getDomainIntersects_loop s domain index [] intersects = Inr intersects"
| "getDomainIntersects_loop s domain index (i # is) intersects =
     (if (is_searching_rows s, index, i) \<notin> known_intersects s then
        (case getDomainIntersects_scan domain i True True of
           Inl e \<Rightarrow> Inl e
         | Inr (all_true, all_false) \<Rightarrow>
             getDomainIntersects_loop s domain index is
               (intersects @ (if all_true then [(i, True)] else [])
                           @ (if all_false then [(i, False)] else [])))
      else getDomainIntersects_loop s domain index is intersects)"

definition getDomainIntersects :: "solver \<Rightarrow> domain \<Rightarrow> nat \<Rightarrow> error + (nat \<times> bool) list" where
  "getDomainIntersects s domain index =
     (case domain of
        [] \<Rightarrow> Inl IndexError
      | d0 # _ \<Rightarrow> getDomainIntersects_loop s domain index [0 ..< length d0] [])"

text \<open>
  \<open>reduceDomains\<close>: the loop \<open>for intersect in intersects\<close>, the block guarded by
  \<open>len(domain) == 1\<close>, and the loop over \<open>enumerate(domains_a)\<close>. The outer list
  never changes its length, so the loop runs over the indices it has at entry and reads
  the domain from the current state.
\<close>

fun reduceDomains_intersects ::
    "solver \<Rightarrow> domains_ref \<Rightarrow> nat \<Rightarrow> (nat \<times> bool) list \<Rightarrow> error + solver" where
  "reduceDomains_intersects s b i [] = Inr s"
| "reduceDomains_intersects s b i (intersect # rest) =
     (if length (get_domains s b) \<le> fst intersect then Inl IndexError
      else
        (case reduceDomain (get_domains s b ! fst intersect) i (snd intersect) of
           Inl e \<Rightarrow> Inl e
         | Inr d \<Rightarrow>
             reduceDomains_intersects
               ((put_domains s b ((get_domains s b)[fst intersect := d]))
                  \<lparr>known_intersects :=
                     insert (is_searching_rows s, i, fst intersect) (known_intersects s)\<rparr>)
               b i rest))"

definition reduceDomains_known ::
    "solver \<Rightarrow> domains_ref \<Rightarrow> known_ref \<Rightarrow> domains_ref \<Rightarrow> nat \<Rightarrow> error + solver" where
  "reduceDomains_known s a ka b i =
     (if length (get_domains s a ! i) = 1 then
        (case reduceNeighborDomains s (hd (get_domains s a ! i)) (get_domains s b) i of
           Inl e \<Rightarrow> Inl e
         | Inr ds \<Rightarrow> Inr (add_known (put_domains s b ds) ka i))
      else Inr s)"

fun reduceDomains_loop ::
    "solver \<Rightarrow> domains_ref \<Rightarrow> known_ref \<Rightarrow> domains_ref \<Rightarrow> nat list \<Rightarrow> error + solver" where
  "reduceDomains_loop s a ka b [] = Inr s"
| "reduceDomains_loop s a ka b (i # is) =
     (if i \<notin> get_known s ka then
        (case reduceDomains_known s a ka b i of
           Inl e \<Rightarrow> Inl e
         | Inr s1 \<Rightarrow>
             (case getDomainIntersects s1 (get_domains s1 a ! i) i of
                Inl e \<Rightarrow> Inl e
              | Inr intersects \<Rightarrow>
                  (case reduceDomains_intersects s1 b i intersects of
                     Inl e \<Rightarrow> Inl e
                   | Inr s2 \<Rightarrow> reduceDomains_loop s2 a ka b is)))
      else reduceDomains_loop s a ka b is)"

definition reduceDomains ::
    "solver \<Rightarrow> domains_ref \<Rightarrow> known_ref \<Rightarrow> domains_ref \<Rightarrow> error + solver" where
  "reduceDomains s a ka b = reduceDomains_loop s a ka b [0 ..< length (get_domains s a)]"

section \<open>The driver\<close>

text \<open>
  \<open>solve\<close>: both generation loops, then the \<open>while\<close> loop, whose body is
  \<open>solve_round\<close>. The loop need not terminate, so \<open>solve_loop\<close> and \<open>solve\<close>
  return \<open>None\<close> when the source never returns.
\<close>

fun generateDomains :: "nat \<Rightarrow> int list list \<Rightarrow> domain list \<Rightarrow> error + domain list" where
  "generateDomains N [] domains = Inr domains"
| "generateDomains N (nums # rest) domains =
     (case generateDomain N nums of
        Inl e \<Rightarrow> Inl e
      | Inr d \<Rightarrow> generateDomains N rest (domains @ [d]))"

definition toggle :: "solver \<Rightarrow> solver" where
  "toggle s = s\<lparr>is_searching_rows := \<not> is_searching_rows s\<rparr>"

definition solve_round :: "solver \<Rightarrow> error + solver" where
  "solve_round s =
     (case reduceDomains s Row_domains Known_rows Col_domains of
        Inl e \<Rightarrow> Inl e
      | Inr s1 \<Rightarrow>
          (let s2 = toggle s1
           in if card (known_rows s2) \<noteq> size_n s2 then
                (case reduceDomains s2 Col_domains Known_cols Row_domains of
                   Inl e \<Rightarrow> Inl e
                 | Inr s3 \<Rightarrow> Inr (toggle s3))
              else Inr s2))"

partial_function (option) solve_loop :: "solver \<Rightarrow> (error + solver) option" where
  "solve_loop s =
     (if card (known_rows s) \<noteq> size_n s \<and> card (known_cols s) \<noteq> size_n s then
        (case solve_round s of
           Inl e \<Rightarrow> Some (Inl e)
         | Inr s' \<Rightarrow> solve_loop s')
      else Some (Inr s))"

declare solve_loop.simps [code]

definition solve :: "solver \<Rightarrow> (error + solver) option" where
  "solve s =
     (case generateDomains (size_n s) (rows s) (row_domains s) of
        Inl e \<Rightarrow> Some (Inl e)
      | Inr rds \<Rightarrow>
          (case generateDomains (size_n s) (cols s) (col_domains s) of
             Inl e \<Rightarrow> Some (Inl e)
           | Inr cds \<Rightarrow> solve_loop (s\<lparr>row_domains := rds, col_domains := cds\<rparr>)))"

section \<open>Notions used to state the properties\<close>

text \<open>
  The lengths of the maximal runs of filled cells of a line, read left to right;
  \<open>runs_from n\<close> has already seen \<open>n\<close> filled cells of the current run.
\<close>

fun runs_from :: "nat \<Rightarrow> bool list \<Rightarrow> nat list" where
  "runs_from n [] = (if n = 0 then [] else [n])"
| "runs_from n (True # xs) = runs_from (Suc n) xs"
| "runs_from n (False # xs) = (if n = 0 then runs_from 0 xs else n # runs_from 0 xs)"

definition runs :: "bool list \<Rightarrow> nat list" where
  "runs xs = runs_from 0 xs"

text \<open>
  Every line of \<open>m\<close> cells whose runs are the blocks \<open>bs\<close>, with the first block as
  far left as possible first: either the first block starts in the first cell, followed
  by one empty cell when cells remain, or the first cell is empty.
\<close>

fun place :: "nat \<Rightarrow> nat list \<Rightarrow> bool list list" where
  "place m [] = [replicate m False]"
| "place 0 (b # bs) = []"
| "place (Suc m) (b # bs) =
     (if b + sum_list bs + length bs \<le> Suc m
      then map (\<lambda>t. replicate b True @ replicate (min 1 (Suc m - b)) False @ t) (place (m - b) bs)
      else [])
     @ map ((#) False) (place m (b # bs))"

text \<open>The records one position of a non-empty domain contributes to the forced cells.\<close>

definition forced :: "solver \<Rightarrow> domain \<Rightarrow> nat \<Rightarrow> nat \<Rightarrow> (nat \<times> bool) list" where
  "forced s domain index i =
     (if (is_searching_rows s, index, i) \<in> known_intersects s then []
      else (if \<forall>c\<in>set domain. c ! i then [(i, True)] else [])
         @ (if \<forall>c\<in>set domain. \<not> c ! i then [(i, False)] else []))"

text \<open>
  One domain after some steps, against the same domain before: candidates were only
  removed, and none from a domain of one candidate. \<open>domains_shrink\<close> says it of a
  list of domains, with the sizes written out.
\<close>

definition shrinks :: "domain \<Rightarrow> domain \<Rightarrow> bool" where
  "shrinks d' d \<longleftrightarrow> subseq d' d \<and> (length d = 1 \<longrightarrow> d' = d)"

definition domains_shrink :: "domain list \<Rightarrow> domain list \<Rightarrow> bool" where
  "domains_shrink ds ds' \<longleftrightarrow>
     length ds' = length ds
     \<and> (\<forall>i<length ds. subseq (ds' ! i) (ds ! i) \<and> length (ds' ! i) \<le> length (ds ! i))"

text \<open>
  The state after some steps, against the state before: domains shrink, the known-sets
  and the recorded intersects only gain entries, the puzzle is the same.
\<close>

definition grows :: "solver \<Rightarrow> solver \<Rightarrow> bool" where
  "grows s s' \<longleftrightarrow>
     list_all2 shrinks (row_domains s') (row_domains s)
     \<and> list_all2 shrinks (col_domains s') (col_domains s)
     \<and> known_rows s \<subseteq> known_rows s' \<and> known_cols s \<subseteq> known_cols s'
     \<and> known_intersects s \<subseteq> known_intersects s'
     \<and> size_n s' = size_n s \<and> rows s' = rows s \<and> cols s' = cols s"

text \<open>
  What a pass over \<open>domains_b\<close> with known-set \<open>ka\<close> leaves alone: every other list
  of domains, every other known-set and the orientation flag.
\<close>

definition frame :: "domains_ref \<Rightarrow> known_ref \<Rightarrow> solver \<Rightarrow> solver \<Rightarrow> bool" where
  "frame b ka s s' \<longleftrightarrow>
     (\<forall>r. r \<noteq> b \<longrightarrow> get_domains s' r = get_domains s r)
     \<and> (\<forall>k. k \<noteq> ka \<longrightarrow> get_known s' k = get_known s k)
     \<and> is_searching_rows s' = is_searching_rows s"

text \<open>Every line recorded as known exists and its domain has exactly one candidate.\<close>

definition known_ok :: "solver \<Rightarrow> domains_ref \<Rightarrow> known_ref \<Rightarrow> bool" where
  "known_ok s a ka \<longleftrightarrow>
     (\<forall>i\<in>get_known s ka. i < length (get_domains s a) \<and> length (get_domains s a ! i) = 1)"

definition solver_inv :: "solver \<Rightarrow> bool" where
  "solver_inv s \<longleftrightarrow> known_ok s Row_domains Known_rows \<and> known_ok s Col_domains Known_cols"

section \<open>Small puzzles\<close>

text \<open>
  The state \<open>solve\<close> returns for the 1 by 1 puzzle with one filled cell: all rows are
  known, no column is.
\<close>

definition solved1 :: solver where
  "solved1 =
     \<lparr>row_domains = [[[True]]], col_domains = [[[True]]],
      known_rows = {0}, known_cols = {}, known_intersects = {(True, 0, 0)},
      size_n = 1, rows = [[1]], cols = [[1]], is_searching_rows = False\<rparr>"

text \<open>
  The generated state of the 2 by 2 puzzle whose four clues are all \<open>[1]\<close>; it has two
  solutions, and no cell is forced.
\<close>

definition stuck2 :: solver where
  "stuck2 =
     \<lparr>row_domains = [[[True, False], [False, True]], [[True, False], [False, True]]],
      col_domains = [[[True, False], [False, True]], [[True, False], [False, True]]],
      known_rows = {}, known_cols = {}, known_intersects = {},
      size_n = 2, rows = [[1], [1]], cols = [[1], [1]], is_searching_rows = True\<rparr>"

text \<open>
  The generated state of the 2 by 2 puzzle with rows \<open>[2], [1]\<close> and columns
  \<open>[2], [1]\<close>, the state after its first row pass, and the state after its first round.
\<close>

definition ladder2 :: solver where
  "ladder2 =
     \<lparr>row_domains = [[[True, True]], [[True, False], [False, True]]],
      col_domains = [[[True, True]], [[True, False], [False, True]]],
      known_rows = {}, known_cols = {}, known_intersects = {},
      size_n = 2, rows = [[2], [1]], cols = [[2], [1]], is_searching_rows = True\<rparr>"

definition ladder2_rows_done :: solver where
  "ladder2_rows_done =
     \<lparr>row_domains = [[[True, True]], [[True, False], [False, True]]],
      col_domains = [[[True, True]], [[True, False]]],
      known_rows = {0}, known_cols = {}, known_intersects = {(True, 0, 1), (True, 0, 0)},
      size_n = 2, rows = [[2], [1]], cols = [[2], [1]], is_searching_rows = True\<rparr>"

definition ladder2_solved :: solver where
  "ladder2_solved =
     \<lparr>row_domains = [[[True, True]], [[True, False]]],
      col_domains = [[[True, True]], [[True, False]]],
      known_rows = {0}, known_cols = {1, 0},
      known_intersects =
        {(False, 1, 1), (False, 1, 0), (False, 0, 1), (False, 0, 0), (True, 0, 1), (True, 0, 0)},
      size_n = 2, rows = [[2], [1]], cols = [[2], [1]], is_searching_rows = True\<rparr>"

section \<open>Run lengths and the enumeration of placements\<close>

lemma runs_from_replicate_True: "runs_from n (replicate b True @ xs) = runs_from (n + b) xs"
  by (induction b arbitrary: n) auto

lemma runs_from_replicate_False: "runs_from 0 (replicate k False @ xs) = runs_from 0 xs"
  by (induction k) auto

lemma runs_from_Nil_iff: "runs_from n xs = [] \<longleftrightarrow> n = 0 \<and> xs = replicate (length xs) False"
  by (induction n xs rule: runs_from.induct) auto

lemma runs_from_size: "sum_list (runs_from n xs) + length (runs_from n xs) \<le> n + length xs + 1"
  by (induction n xs rule: runs_from.induct) auto

lemma runs_from_pos: "b \<in> set (runs_from n xs) \<Longrightarrow> 0 < b"
  by (induction n xs rule: runs_from.induct) (auto split: if_splits)

lemma False_Cons_eq_replicate_True:
  "False # xs = replicate k True @ r \<longleftrightarrow> k = 0 \<and> r = False # xs"
  by (cases k) auto

lemma runs_from_decomp:
  "0 < n \<Longrightarrow> runs_from n xs = b # bs \<longleftrightarrow>
     n \<le> b \<and> (\<exists>r. xs = replicate (b - n) True @ r \<and> (r = [] \<or> (\<exists>r'. r = False # r')) \<and> runs_from 0 r = bs)"
proof (induction xs arbitrary: n)
  case Nil
  then show ?case by auto
next
  case (Cons x xs)
  show ?case
  proof (cases x)
    case True
    have "runs_from n (x # xs) = b # bs \<longleftrightarrow> runs_from (Suc n) xs = b # bs"
      using True by simp
    also have "\<dots> \<longleftrightarrow> Suc n \<le> b \<and> (\<exists>r. xs = replicate (b - Suc n) True @ r \<and> (r = [] \<or> (\<exists>r'. r = False # r')) \<and> runs_from 0 r = bs)"
      using Cons.IH [of "Suc n"] by simp
    also have "\<dots> \<longleftrightarrow> n \<le> b \<and> (\<exists>r. x # xs = replicate (b - n) True @ r \<and> (r = [] \<or> (\<exists>r'. r = False # r')) \<and> runs_from 0 r = bs)"
      (is "?L \<longleftrightarrow> ?R")
    proof
      assume ?L
      then obtain r where *: "Suc n \<le> b" "xs = replicate (b - Suc n) True @ r" "r = [] \<or> (\<exists>r'. r = False # r')" "runs_from 0 r = bs"
        by blast
      have "b - n = Suc (b - Suc n)" using * by arith
      then have "x # xs = replicate (b - n) True @ r" using * True by simp
      moreover have "n \<le> b" using * by arith
      ultimately show ?R using *(3,4) by blast
    next
      assume ?R
      then obtain r where *: "n \<le> b" "x # xs = replicate (b - n) True @ r" "r = [] \<or> (\<exists>r'. r = False # r')" "runs_from 0 r = bs"
        by blast
      have "b - n \<noteq> 0"
      proof
        assume "b - n = 0"
        then have "x # xs = r" using * by simp
        then show False using * True by auto
      qed
      then obtain d where d: "b - n = Suc d" by (cases "b - n") auto
      then have "xs = replicate d True @ r" using * by simp
      moreover have "d = b - Suc n" "Suc n \<le> b" using d by arith+
      ultimately show ?L using *(3,4) by blast
    qed
    finally show ?thesis .
  next
    case False
    then show ?thesis using Cons.prems by (auto simp: False_Cons_eq_replicate_True)
  qed
qed

lemma place_empty: "bs \<noteq> [] \<Longrightarrow> m + 1 < sum_list bs + length bs \<Longrightarrow> place m bs = []"
  by (induction m bs rule: place.induct) auto

lemma place_length: "t \<in> set (place m bs) \<Longrightarrow> length t = m"
  by (induction m bs arbitrary: t rule: place.induct) (auto split: if_splits)

lemma place_count:
  "\<forall>b\<in>set bs. 0 < b \<Longrightarrow> sum_list bs + length bs \<le> m + 2 \<Longrightarrow> length (place m bs) = (m + 1 - sum_list bs) choose length bs"
proof (induction m bs rule: place.induct)
  case (1 m)
  then show ?case by simp
next
  case (2 b bs)
  then show ?case by (cases bs) auto
next
  case (3 m b bs)
  show ?case
  proof (cases "b + sum_list bs + length bs \<le> Suc m")
    case True
    have a: "length (place (m - b) bs) = (m + 1 - (b + sum_list bs)) choose length bs"
    proof (cases bs)
      case Nil
      then show ?thesis by simp
    next
      case (Cons c cs)
      then have "b \<le> m" using True by simp
      then have "m - b + 1 - sum_list bs = m + 1 - (b + sum_list bs)" by arith
      moreover have "length (place (m - b) bs) = (m - b + 1 - sum_list bs) choose length bs"
        using 3(1) [OF True] 3(3) True \<open>b \<le> m\<close> by simp
      ultimately show ?thesis by simp
    qed
    have b: "length (place m (b # bs)) = (m + 1 - (b + sum_list bs)) choose Suc (length bs)"
      using 3(2) 3(3) True by simp
    have "Suc m + 1 - (b + sum_list bs) = Suc (m + 1 - (b + sum_list bs))"
      using True by arith
    then show ?thesis using a b True by simp
  next
    case False
    then have eq: "b + sum_list bs + length bs = m + 2" using 3(4) by simp
    have "place m (b # bs) = []"
      by (rule place_empty) (use eq in auto)
    moreover have "Suc m + 1 - (b + sum_list bs) = length bs" using eq by arith
    ultimately show ?thesis using False by simp
  qed
qed

lemma place_iff:
  "\<forall>b\<in>set bs. 0 < b \<Longrightarrow> t \<in> set (place m bs) \<longleftrightarrow> length t = m \<and> runs t = bs"
proof (induction m bs arbitrary: t rule: place.induct)
  case (1 m)
  show ?case using runs_from_Nil_iff [of 0 t] by (auto simp: runs_def)
next
  case (2 b bs)
  then show ?case by (auto simp: runs_def)
next
  case (3 m b bs)
  have bpos: "0 < b" and bspos: "\<forall>b\<in>set bs. 0 < b" using 3(3) by auto
  note IH1 = 3(1) [OF _ bspos]
  note IH2 = 3(2) [OF 3(3)]
  show ?case
  proof (cases t)
    case Nil
    then show ?thesis by (auto simp: runs_def)
  next
    case (Cons x t')
    show ?thesis
    proof (cases x)
      case False
      have "t \<notin> set (map (\<lambda>t. replicate b True @ replicate (min 1 (Suc m - b)) False @ t) (place (m - b) bs))"
        using bpos Cons False by (cases b) auto
      then have "t \<in> set (place (Suc m) (b # bs)) \<longleftrightarrow> t' \<in> set (place m (b # bs))"
        using Cons False by auto
      then show ?thesis using IH2 [of t'] Cons False by (simp add: runs_def)
    next
      case True
      let ?fits = "b + sum_list bs + length bs \<le> Suc m"
      have L: "t \<in> set (place (Suc m) (b # bs)) \<longleftrightarrow>
          ?fits \<and> (\<exists>u\<in>set (place (m - b) bs). t = replicate b True @ replicate (min 1 (Suc m - b)) False @ u)"
        using Cons True by auto
      have R: "runs t = b # bs \<longleftrightarrow>
          1 \<le> b \<and> (\<exists>r. t' = replicate (b - 1) True @ r \<and> (r = [] \<or> (\<exists>r'. r = False # r')) \<and> runs_from 0 r = bs)"
        using runs_from_decomp [of 1 t' b bs] Cons True by (simp add: runs_def)
      have tt: "replicate b True @ r = True # replicate (b - 1) True @ r" for r
        using bpos by (cases b) auto
      show ?thesis
      proof
        assume "t \<in> set (place (Suc m) (b # bs))"
        then obtain u where fits: ?fits and u: "u \<in> set (place (m - b) bs)"
          and t: "t = replicate b True @ replicate (min 1 (Suc m - b)) False @ u"
          using L by blast
        have lu: "length u = m - b" and ru: "runs u = bs" using IH1 [OF fits, of u] u by auto
        have len: "length t = Suc m" using t lu fits by (auto simp: min_def)
        let ?r = "replicate (min 1 (Suc m - b)) False @ u"
        have "t' = replicate (b - 1) True @ ?r" using t Cons tt [of ?r] by simp
        moreover have "?r = [] \<or> (\<exists>r'. ?r = False # r')"
          using lu fits by (cases "b = Suc m") (auto simp: min_def)
        moreover have "runs_from 0 ?r = bs"
          using ru by (simp add: runs_def runs_from_replicate_False)
        ultimately have "runs t = b # bs" using R bpos by auto
        then show "length t = Suc m \<and> runs t = b # bs" using len by simp
      next
        assume a: "length t = Suc m \<and> runs t = b # bs"
        then obtain r where r: "t' = replicate (b - 1) True @ r" "r = [] \<or> (\<exists>r'. r = False # r')" "runs_from 0 r = bs"
          using R by blast
        have t: "t = replicate b True @ r" using r Cons True tt [of r] by simp
        then have len: "Suc m = b + length r" using a by simp
        from r(2) show "t \<in> set (place (Suc m) (b # bs))"
        proof
          assume "r = []"
          then have "bs = []" "b = Suc m" using r len by auto
          then show ?thesis using t \<open>r = []\<close> by simp
        next
          assume "\<exists>r'. r = False # r'"
          then obtain r' where r': "r = False # r'" by blast
          then have rr: "runs r' = bs" using r by (simp add: runs_def)
          have lr: "length r' = m - b" "b \<le> m" using len r' by auto
          have "sum_list bs + length bs \<le> length r' + 1"
            using runs_from_size [of 0 r'] rr by (simp add: runs_def)
          then have fits: ?fits using lr by arith
          have "r' \<in> set (place (m - b) bs)" using IH1 [OF fits, of r'] rr lr by simp
          moreover have "t = replicate b True @ replicate (min 1 (Suc m - b)) False @ r'"
            using t r' lr by (simp add: min_def)
          ultimately show ?thesis using L fits by blast
        qed
      qed
    qed
  qed
qed

section \<open>The generator computes the enumeration\<close>

lemma set_cell_in_range:
  "0 \<le> k \<Longrightarrow> k < int (length row) \<Longrightarrow> set_cell row k = Inr (row[nat k := True])"
  by (simp add: set_cell_def)

lemma fill_ok:
  "\<forall>j\<in>set js. 0 \<le> i + j \<and> i + j < int (length row) \<Longrightarrow>
   \<exists>row'. fill row i js = Inr row' \<and> length row' = length row \<and>
     (\<forall>p<length row. row' ! p = (row ! p \<or> (\<exists>j\<in>set js. int p = i + j)))"
proof (induction js arbitrary: row)
  case Nil
  then show ?case by simp
next
  case (Cons j js)
  let ?r = "row[nat (i + j) := True]"
  have sc: "set_cell row (i + j) = Inr ?r"
    using Cons.prems by (simp add: set_cell_in_range)
  have "\<forall>j\<in>set js. 0 \<le> i + j \<and> i + j < int (length ?r)"
    using Cons.prems by simp
  from Cons.IH [OF this] obtain row' where r: "fill ?r i js = Inr row'" "length row' = length ?r"
    "\<forall>p<length ?r. row' ! p = (?r ! p \<or> (\<exists>j\<in>set js. int p = i + j))" by blast
  have "\<forall>p<length row. row' ! p = (row ! p \<or> (\<exists>j'\<in>set (j # js). int p = i + j'))"
  proof (intro allI impI)
    fix p assume p: "p < length row"
    have "?r ! p = (row ! p \<or> int p = i + j)"
      using p Cons.prems by (auto simp: nth_list_update)
    then show "row' ! p = (row ! p \<or> (\<exists>j'\<in>set (j # js). int p = i + j'))"
      using r(3) p by auto
  qed
  then show ?case using sc r by simp
qed

lemma fill_block:
  assumes "i + b \<le> length row" and "\<forall>p\<ge>i. p < length row \<longrightarrow> \<not> row ! p"
  shows "fill row (int i) [0 .. int b - 1] =
           Inr (take i row @ replicate b True @ replicate (length row - i - b) False)"
proof -
  have "\<forall>j\<in>set [0 .. int b - 1]. 0 \<le> int i + j \<and> int i + j < int (length row)"
    using assms(1) by auto
  from fill_ok [OF this] obtain row' where r: "fill row (int i) [0 .. int b - 1] = Inr row'"
    "length row' = length row"
    "\<forall>p<length row. row' ! p = (row ! p \<or> (\<exists>j\<in>set [0 .. int b - 1]. int p = int i + j))" by blast
  have "row' = take i row @ replicate b True @ replicate (length row - i - b) False"
  proof (rule nth_equalityI)
    show "length row' = length (take i row @ replicate b True @ replicate (length row - i - b) False)"
      using r(2) assms(1) by simp
  next
    fix p assume "p < length row'"
    then have p: "p < length row" using r(2) by simp
    have ex: "(\<exists>j\<in>set [0 .. int b - 1]. int p = int i + j) \<longleftrightarrow> i \<le> p \<and> p < i + b"
    proof
      assume "\<exists>j\<in>set [0 .. int b - 1]. int p = int i + j"
      then show "i \<le> p \<and> p < i + b" by auto
    next
      assume "i \<le> p \<and> p < i + b"
      then have "int p - int i \<in> set [0 .. int b - 1]" "int p = int i + (int p - int i)" by auto
      then show "\<exists>j\<in>set [0 .. int b - 1]. int p = int i + j" by blast
    qed
    show "row' ! p = (take i row @ replicate b True @ replicate (length row - i - b) False) ! p"
      using r(3) p ex assms by (auto simp: nth_append)
  qed
  then show ?thesis using r(1) by simp
qed

lemma loop_bridge:
  fixes ns :: "nat list"
  assumes pos: "\<forall>b\<in>set ns. 0 < b"
    and k: "k < length ns"
    and bnd: "int B = int N - int (sum_list (drop (Suc k) ns)) - int (length ns) + int k - int (ns ! k) + 2"
    and H: "\<And>domain row' j. j < B \<Longrightarrow> length row' = N \<Longrightarrow>
              \<forall>p\<ge>j + ns ! k + 1. p < N \<longrightarrow> \<not> row' ! p \<Longrightarrow>
              generateDomainHelper N (map int ns) domain row' (int j) (int (ns ! k)) (Suc k)
                  (int (sum_list (drop (Suc k) ns)))
                = Inr (domain @ map (\<lambda>t. take (j + ns ! k + 1) row' @ t)
                                   (place (N - (j + ns ! k + 1)) (drop (Suc k) ns)))"
    and row: "length row = N" "\<forall>p\<ge>i. p < N \<longrightarrow> \<not> row ! p"
    and i: "i \<le> B"
  shows "generateDomainLoop N (map int ns) domain row k (int (sum_list (drop (Suc k) ns))) (int i) (int B)
           = Inr (domain @ map (\<lambda>t. take i row @ t) (place (N - i) (drop k ns)))"
  using row(2) i
proof (induction "B - i" arbitrary: i domain)
  case 0
  let ?b = "ns ! k" and ?bs = "drop (Suc k) ns"
  have dk: "drop k ns = ?b # ?bs" using k by (simp add: Cons_nth_drop_Suc)
  have bpos: "0 < ?b" using pos k by simp
  have iB: "i = B" using 0 by simp
  have "N - i + 1 < sum_list (drop k ns) + length (drop k ns)"
    using bnd k bpos iB dk by simp
  then have "place (N - i) (drop k ns) = []"
    using place_empty [of "drop k ns" "N - i"] dk by simp
  then show ?case using iB by (simp add: generateDomainLoop.simps)
next
  case (Suc d)
  let ?b = "ns ! k" and ?bs = "drop (Suc k) ns"
  have dk: "drop k ns = ?b # ?bs" using k by (simp add: Cons_nth_drop_Suc)
  have bpos: "0 < ?b" using pos k by simp
  have iB: "i < B" using Suc.hyps by simp
  have lbs: "length ?bs = length ns - k - 1" by simp
  have fits: "i + ?b + sum_list ?bs + length ?bs \<le> N"
    using bnd iB k by simp
  then have ib: "i + ?b \<le> N" by simp
  let ?rc = "take i row @ replicate ?b True @ replicate (N - i - ?b) False"
  have fill: "fill row (int i) [0 .. int ?b - 1] = Inr ?rc"
    using fill_block [of i ?b row] ib row(1) Suc.prems(1) by simp
  have rc: "length ?rc = N" using ib row(1) by simp
  have rcF: "\<forall>p\<ge>i + ?b + 1. p < N \<longrightarrow> \<not> ?rc ! p"
    using row(1) ib by (auto simp: nth_append)
  note h = H [OF iB rc rcF, of domain]
  let ?d1 = "domain @ map (\<lambda>t. take (i + ?b + 1) ?rc @ t) (place (N - (i + ?b + 1)) ?bs)"
  have rowi: "\<not> row ! i" "i < N" using Suc.prems(1) ib bpos by auto
  have IH: "generateDomainLoop N (map int ns) ?d1 row k (int (sum_list ?bs)) (int (Suc i)) (int B)
      = Inr (?d1 @ map (\<lambda>t. take (Suc i) row @ t) (place (N - Suc i) (drop k ns)))"
    using Suc.hyps(1) [of "Suc i" ?d1] Suc.hyps(2) Suc.prems iB by simp
  have tk1: "take (Suc i) row = take i row @ [False]"
    using rowi row(1) by (simp add: take_Suc_conv_app_nth)
  obtain m where m: "N - i = Suc m" using rowi by (cases "N - i") auto
  have tk: "take (i + ?b + 1) ?rc = take i row @ replicate ?b True @ replicate (min 1 (Suc m - ?b)) False"
    using row(1) ib m by (simp add: min_def)
  let ?X = "place (m - ?b) ?bs" and ?Y = "place m (?b # ?bs)"
  have pX: "place (N - (i + ?b + 1)) ?bs = ?X"
  proof -
    have "N - (i + ?b + 1) = m - ?b" using m by arith
    then show ?thesis by simp
  qed
  have pY: "place (N - Suc i) (drop k ns) = ?Y"
  proof -
    have "N - Suc i = m" using m by arith
    then show ?thesis using dk by simp
  qed
  have fits': "?b + sum_list ?bs + length ?bs \<le> Suc m" using fits m by arith
  have pl: "place (N - i) (drop k ns) =
      map (\<lambda>t. replicate ?b True @ replicate (min 1 (Suc m - ?b)) False @ t) ?X
      @ map ((#) False) ?Y"
    unfolding m dk using fits' by simp
  have res: "?d1 @ map (\<lambda>t. take (Suc i) row @ t) (place (N - Suc i) (drop k ns))
      = domain @ map (\<lambda>t. take i row @ t) (place (N - i) (drop k ns))"
    unfolding pX pY pl tk tk1 by (simp add: comp_def)
  have c1: "(int i < int B) = True" using iB by simp
  have c2: "(length (map int ns) \<le> k) = False" using k by simp
  have nk: "map int ns ! k = int ?b" using k by simp
  have h': "generateDomainHelper N (map int ns) domain ?rc (int i) (int ?b) (k + 1) (int (sum_list ?bs))
      = Inr ?d1"
    using h by simp
  have sc: "int i + 1 = int (Suc i)" by simp
  have "generateDomainLoop N (map int ns) domain row k (int (sum_list ?bs)) (int i) (int B)
        = generateDomainLoop N (map int ns) ?d1 row k (int (sum_list ?bs)) (int (Suc i)) (int B)"
    by (subst generateDomainLoop.simps) (simp only: c1 c2 nk fill h' sc if_True if_False sum.case)
  then show ?case using IH res by simp
qed

lemma helper_bridge:
  fixes ns :: "nat list"
  assumes pos: "\<forall>b\<in>set ns. 0 < b"
  shows "k \<le> length ns \<Longrightarrow> length row = N \<Longrightarrow>
     int st = (if ls = - 1 then 0 else ls + ln + 1) \<Longrightarrow>
     (k < length ns \<longrightarrow> st + sum_list (drop k ns) + (length ns - k - 1) \<le> N) \<Longrightarrow>
     \<forall>p\<ge>st. p < N \<longrightarrow> \<not> row ! p \<Longrightarrow>
     generateDomainHelper N (map int ns) domain row ls ln k (int (sum_list (drop k ns)))
       = Inr (domain @ map (\<lambda>t. take st row @ t) (place (N - st) (drop k ns)))"
proof (induction "length ns - k" arbitrary: k domain row ls ln st)
  case 0
  then have k: "k = length ns" by simp
  have "take st row @ replicate (N - st) False = row"
  proof (rule nth_equalityI)
    show "length (take st row @ replicate (N - st) False) = length row"
      using 0(3) by auto
  next
    fix p assume "p < length (take st row @ replicate (N - st) False)"
    then have "p < N" using 0(3) by auto
    then show "(take st row @ replicate (N - st) False) ! p = row ! p"
      using 0(3,6) by (auto simp: nth_append)
  qed
  then show ?case using k by (simp add: generateDomainHelper.simps)
next
  case (Suc d)
  then have k: "k < length ns" by simp
  let ?b = "ns ! k" and ?bs = "drop (Suc k) ns"
  have dk: "drop k ns = ?b # ?bs" using k by (simp add: Cons_nth_drop_Suc)
  have bpos: "0 < ?b" using pos k by simp
  have feas: "st + ?b + sum_list ?bs + (length ns - k - 1) \<le> N"
    using Suc.prems(4) k dk by simp
  define B where "B = N + k + 2 - (sum_list ?bs + length ns + ?b)"
  have bnd: "int B = int N - int (sum_list ?bs) - int (length ns) + int k - int ?b + 2"
    using feas k unfolding B_def by simp
  have stB: "st < B" using feas k unfolding B_def by simp
  have H: "generateDomainHelper N (map int ns) domain' row' (int j) (int ?b) (Suc k)
                  (int (sum_list ?bs))
      = Inr (domain' @ map (\<lambda>t. take (j + ?b + 1) row' @ t) (place (N - (j + ?b + 1)) ?bs))"
    if "j < B" "length row' = N" "\<forall>p\<ge>j + ?b + 1. p < N \<longrightarrow> \<not> row' ! p" for domain' row' j
  proof (rule Suc.hyps(1))
    show "d = length ns - Suc k" using Suc.hyps(2) by simp
    show "Suc k \<le> length ns" using k by simp
    show "length row' = N" by fact
    show "int (j + ?b + 1) = (if int j = - 1 then 0 else int j + int ?b + 1)" by simp
    show "Suc k < length ns \<longrightarrow> j + ?b + 1 + sum_list ?bs + (length ns - Suc k - 1) \<le> N"
      using that(1) k unfolding B_def by arith
    show "\<forall>p\<ge>j + ?b + 1. p < N \<longrightarrow> \<not> row' ! p" by fact
  qed
  have loop: "generateDomainLoop N (map int ns) domain row k (int (sum_list ?bs)) (int st) (int B)
           = Inr (domain @ map (\<lambda>t. take st row @ t) (place (N - st) (drop k ns)))"
    by (rule loop_bridge [OF pos k bnd H Suc.prems(2) Suc.prems(5)]) (use stB in auto)
  have nz: "(int (sum_list (drop k ns)) = 0) = False" using dk bpos by simp
  have c2: "(length (map int ns) \<le> k) = False" using k by simp
  have nk: "map int ns ! k = int ?b" using k by simp
  have lm: "length (map int ns) = length ns" by simp
  have c3: "(length ns \<le> k) = False" using k by simp
  have rem: "int (sum_list (drop k ns)) - int ?b = int (sum_list ?bs)" using dk by simp
  have st: "(if ls = - 1 then 0 else ls + ln + 1) = int st" using Suc.prems(3) by simp
  have ne: "(int st = int B) = False" using stB by simp
  show ?case
    by (subst generateDomainHelper.simps)
       (simp only: Let_def nz c2 c3 nk lm rem st bnd [symmetric] ne if_False loop)
qed

lemma sum_list_map_int: "sum_list (map int ns) = int (sum_list ns)"
  by (induction ns) auto

lemma generateDomain_place:
  assumes "\<forall>b\<in>set ns. 0 < b" and "ns = [] \<or> sum_list ns + length ns \<le> N + 1"
  shows "generateDomain N (map int ns) = Inr (place N ns)"
proof -
  have feas: "0 < length ns \<longrightarrow> 0 + sum_list (drop 0 ns) + (length ns - 0 - 1) \<le> N"
    using assms(2) by (cases ns) auto
  have st: "int 0 = (if (- 1 :: int) = - 1 then 0 else - 1 + - 1 + 1)" by simp
  have "generateDomainHelper N (map int ns) [] (replicate N False) (- 1) (- 1) 0 (int (sum_list (drop 0 ns)))
      = Inr ([] @ map (\<lambda>t. take 0 (replicate N False) @ t) (place (N - 0) (drop 0 ns)))"
    by (rule helper_bridge [OF assms(1) _ _ st feas]) auto
  then show ?thesis by (simp add: generateDomain_def sum_list_map_int)
qed

lemma nums_as_nat:
  assumes "\<forall>b\<in>set nums. (0::int) < b"
  shows "nums = map int (map nat nums)" and "\<forall>b\<in>set (map nat nums). 0 < b"
    and "sum_list nums = int (sum_list (map nat nums))"
proof -
  show a: "nums = map int (map nat nums)"
    using assms by (induction nums) auto
  show "\<forall>b\<in>set (map nat nums). 0 < b" using assms by auto
  show "sum_list nums = int (sum_list (map nat nums))"
    using a sum_list_map_int [of "map nat nums"] by simp
qed

lemma generateDomain_feasible:
  assumes "\<forall>b\<in>set nums. 0 < b" and "sum_list nums + int (length nums) - 1 \<le> int N"
  shows "generateDomain N nums = Inr (place N (map nat nums))"
proof -
  let ?ns = "map nat nums"
  note n = nums_as_nat [OF assms(1)]
  have "?ns = [] \<or> sum_list ?ns + length ?ns \<le> N + 1"
    using assms(2) n(3) by simp
  from generateDomain_place [OF n(2) this] show ?thesis using n(1) by simp
qed

lemma generateDomain_empty_spec: "generateDomain N [] = Inr [replicate N False]"
  by (simp add: generateDomain_def generateDomainHelper.simps)

lemma generateDomain_count:
  assumes "\<forall>b\<in>set nums. 0 < b" and "sum_list nums + int (length nums) - 1 \<le> int N"
  shows "\<exists>ds. generateDomain N nums = Inr ds
            \<and> length ds = nat (int N - sum_list nums + 1) choose length nums"
proof -
  let ?ns = "map nat nums"
  note n = nums_as_nat [OF assms(1)]
  have le: "sum_list ?ns + length ?ns \<le> N + 2" using assms(2) n(3) by simp
  have "nat (int N - sum_list nums + 1) = N + 1 - sum_list ?ns"
    using n(3) by simp
  then show ?thesis
    using generateDomain_feasible [OF assms] place_count [OF n(2) le] by simp
qed

lemma generateDomain_oversize:
  assumes "\<forall>b\<in>set nums. 0 < b" and "int N + 1 < sum_list nums + int (length nums) - 1"
  shows "generateDomain N nums = Inr []"
proof -
  obtain b bs where nums: "nums = b # bs"
    using assms(2) by (cases nums) auto
  have nz: "(sum_list nums = 0) = False"
  proof -
    have "0 \<le> sum_list bs" using assms(1) nums by (intro sum_list_nonneg) auto
    then show ?thesis using assms(1) nums by simp
  qed
  have c: "(length nums \<le> 0) = False" using nums by simp
  let ?bound = "int N - (sum_list nums - nums ! 0) - int (length nums) + int 0 - nums ! 0 + 2"
  have neg: "?bound < 0" using assms(2) by simp
  then have ne: "((0::int) = ?bound) = False" by simp
  have lp: "generateDomainLoop N nums [] (replicate N False) 0 (sum_list nums - nums ! 0) 0 ?bound = Inr []"
    using neg by (subst generateDomainLoop.simps) simp
  have st: "(if (- 1 :: int) = - 1 then 0 else - 1 + - 1 + 1) = (0 :: int)" by simp
  show ?thesis
    unfolding generateDomain_def
    by (subst generateDomainHelper.simps) (simp only: nz c if_False if_True Let_def st ne lp)
qed

lemma set_cell_length: "set_cell row k = Inr row' \<Longrightarrow> length row' = length row"
  by (auto simp: set_cell_def Let_def split: if_splits)

lemma set_cell_error: "set_cell row k = Inl e \<Longrightarrow> e = IndexError"
  by (cases e) simp

lemma fill_out_of_range:
  "\<exists>j\<in>set js. int (length row) \<le> i + j \<Longrightarrow> fill row i js = Inl IndexError"
proof (induction js arbitrary: row)
  case Nil
  then show ?case by simp
next
  case (Cons j js)
  show ?case
  proof (cases "set_cell row (i + j)")
    case (Inl e)
    then show ?thesis by (cases e) simp
  next
    case (Inr row')
    have len: "length row' = length row" using Inr by (rule set_cell_length)
    have "\<not> int (length row) \<le> i + j"
      using Inr by (auto simp: set_cell_def Let_def split: if_splits)
    then have "\<exists>j\<in>set js. int (length row') \<le> i + j" using Cons.prems len by auto
    from Cons.IH [OF this] show ?thesis using Inr by simp
  qed
qed

lemma helper_boundary:
  fixes ns :: "nat list"
  assumes pos: "\<forall>b\<in>set ns. 0 < b"
  shows "k < length ns \<Longrightarrow> length row = N \<Longrightarrow>
     int st = (if ls = - 1 then 0 else ls + ln + 1) \<Longrightarrow>
     st + sum_list (drop k ns) + (length ns - k - 1) = N + 1 \<Longrightarrow>
     generateDomainHelper N (map int ns) domain row ls ln k (int (sum_list (drop k ns)))
       = Inl IndexError"
proof (induction "length ns - k" arbitrary: k domain row ls ln st)
  case 0
  then show ?case by simp
next
  case (Suc d)
  note k = Suc.prems(1)
  let ?b = "ns ! k" and ?bs = "drop (Suc k) ns"
  have dk: "drop k ns = ?b # ?bs" using k by (simp add: Cons_nth_drop_Suc)
  have bpos: "0 < ?b" using pos k by simp
  have tight: "st + ?b + sum_list ?bs + (length ns - k - 1) = N + 1"
    using Suc.prems(4) dk by simp
  have nz: "(int (sum_list (drop k ns)) = 0) = False" using dk bpos by simp
  have c2: "(length (map int ns) \<le> k) = False" using k by simp
  have c3: "(length ns \<le> k) = False" using k by simp
  have nk: "map int ns ! k = int ?b" using k by simp
  have lm: "length (map int ns) = length ns" by simp
  have rem: "int (sum_list (drop k ns)) - int ?b = int (sum_list ?bs)" using dk by simp
  have st: "(if ls = - 1 then 0 else ls + ln + 1) = int st" using Suc.prems(3) by simp
  have bnd: "int N - int (sum_list ?bs) - int (length ns) + int k - int ?b + 2 = int st"
    using tight k by simp
  have c1: "(int st < int st + 1) = True" by simp
  have loop: "generateDomainLoop N (map int ns) domain row k (int (sum_list ?bs)) (int st) (int st + 1)
      = Inl IndexError"
  proof (cases "Suc k < length ns")
    case False
    then have "?bs = []" by simp
    then have "st + ?b = N + 1" using tight k False by simp
    then have "int N - int st \<in> set [0 .. int ?b - 1]" "int (length row) \<le> int st + (int N - int st)"
      using Suc.prems(2) bpos by auto
    then have "fill row (int st) [0 .. int ?b - 1] = Inl IndexError"
      by (intro fill_out_of_range) blast
    then show ?thesis
      by (subst generateDomainLoop.simps) (simp only: c1 c2 nk if_True if_False sum.case)
  next
    case True
    then obtain c cs where cs: "?bs = c # cs" by (cases ?bs) auto
    then have "c \<in> set ns" by (metis in_set_dropD list.set_intros(1))
    then have "0 < c" using pos by simp
    then have "0 < sum_list ?bs" using cs by simp
    then have fit: "st + ?b \<le> N" using tight True by simp
    have "\<forall>j\<in>set [0 .. int ?b - 1]. 0 \<le> int st + j \<and> int st + j < int (length row)"
      using fit Suc.prems(2) by auto
    from fill_ok [OF this] obtain rc where rc: "fill row (int st) [0 .. int ?b - 1] = Inr rc"
      "length rc = length row" by blast
    have h: "generateDomainHelper N (map int ns) domain rc (int st) (int ?b) (Suc k)
        (int (sum_list (drop (Suc k) ns))) = Inl IndexError"
    proof (rule Suc.hyps(1))
      show "d = length ns - Suc k" using Suc.hyps(2) by simp
      show "Suc k < length ns" by fact
      show "length rc = N" using rc(2) Suc.prems(2) by simp
      show "int (st + ?b + 1) = (if int st = - 1 then 0 else int st + int ?b + 1)" by simp
      show "st + ?b + 1 + sum_list (drop (Suc k) ns) + (length ns - Suc k - 1) = N + 1"
        using tight True by simp
    qed
    have h': "generateDomainHelper N (map int ns) domain rc (int st) (int ?b) (k + 1)
        (int (sum_list ?bs)) = Inl IndexError"
      using h by simp
    show ?thesis
      by (subst generateDomainLoop.simps) (simp only: c1 c2 nk rc(1) h' if_True if_False sum.case)
  qed
  have eq: "(int st = int st) = True" by simp
  show ?case
    by (subst generateDomainHelper.simps)
       (simp only: Let_def nz c2 c3 nk lm rem st bnd eq if_True if_False loop)
qed

lemma generateDomain_off_by_one:
  assumes "\<forall>b\<in>set nums. 0 < b" and "sum_list nums + int (length nums) - 1 = int N + 1"
  shows "generateDomain N nums = Inl IndexError"
proof -
  let ?ns = "map nat nums"
  note n = nums_as_nat [OF assms(1)]
  have ne: "nums \<noteq> []" using assms(2) by auto
  have k: "0 < length ?ns" using ne by simp
  have "int (sum_list ?ns) + int (length ?ns) - 1 = int N + 1"
    using assms(2) n(3) by simp
  then have "sum_list ?ns + (length ?ns - 1) = N + 1" using k by linarith
  then have t: "0 + sum_list (drop 0 ?ns) + (length ?ns - 0 - 1) = N + 1" by simp
  have st: "int 0 = (if (- 1 :: int) = - 1 then 0 else - 1 + - 1 + 1)" by simp
  have "generateDomainHelper N (map int ?ns) [] (replicate N False) (- 1) (- 1) 0
          (int (sum_list (drop 0 ?ns))) = Inl IndexError"
    by (rule helper_boundary [OF n(2) k _ st t]) simp
  then show ?thesis using n(1,3) by (simp add: generateDomain_def)
qed

section \<open>Removing candidates from one domain\<close>

lemma subseq_delete_nth: "subseq (take i xs @ drop (Suc i) xs) xs"
proof (induction xs arbitrary: i)
  case Nil
  then show ?case by simp
next
  case (Cons x xs)
  then show ?case by (cases i) auto
qed

lemma filter_delete_nth:
  "i < length xs \<Longrightarrow> \<not> P (xs ! i) \<Longrightarrow>
     filter P (take i (take i xs @ drop (Suc i) xs)) @ drop i (take i xs @ drop (Suc i) xs)
       = filter P (take (Suc i) xs) @ drop (Suc i) xs"
  by (simp add: take_Suc_conv_app_nth)

lemma filter_keep_nth:
  "i < length xs \<Longrightarrow> P (xs ! i) \<Longrightarrow>
     filter P (take i xs) @ drop i xs = filter P (take (Suc i) xs) @ drop (Suc i) xs"
  by (simp add: take_Suc_conv_app_nth Cons_nth_drop_Suc)

lemma reduceDomain_loop_filter:
  "i \<le> length domain \<Longrightarrow> \<forall>c\<in>set (take i domain). index < length c \<Longrightarrow>
     reduceDomain_loop domain index v i
       = Inr (filter (\<lambda>c. c ! index = v) (take i domain) @ drop i domain)"
proof (induction i arbitrary: domain)
  case 0
  then show ?case by simp
next
  case (Suc i)
  have i: "i < length domain" using Suc.prems(1) by simp
  have tk: "take (Suc i) domain = take i domain @ [domain ! i]"
    using i by (simp add: take_Suc_conv_app_nth)
  have inr: "index < length (domain ! i)" "\<forall>c\<in>set (take i domain). index < length c"
    using Suc.prems(2) tk by auto
  show ?case
  proof (cases "domain ! i ! index = v")
    case True
    have "reduceDomain_loop domain index v (Suc i) = reduceDomain_loop domain index v i"
      using True inr by simp
    also have "\<dots> = Inr (filter (\<lambda>c. c ! index = v) (take i domain) @ drop i domain)"
      using Suc.IH [of domain] i inr by simp
    finally show ?thesis
      using filter_keep_nth [of i domain "\<lambda>c. c ! index = v"] i True by simp
  next
    case False
    let ?d = "take i domain @ drop (Suc i) domain"
    have "reduceDomain_loop domain index v (Suc i) = reduceDomain_loop ?d index v i"
      using False inr by simp
    also have "\<dots> = Inr (filter (\<lambda>c. c ! index = v) (take i ?d) @ drop i ?d)"
      by (rule Suc.IH) (use i inr in auto)
    finally show ?thesis
      using filter_delete_nth [of i domain "\<lambda>c. c ! index = v"] i False by simp
  qed
qed

lemma reduceDomain_filter:
  "length domain \<noteq> 1 \<Longrightarrow> \<forall>c\<in>set domain. index < length c \<Longrightarrow>
     reduceDomain domain index v = Inr (filter (\<lambda>c. c ! index = v) domain)"
  using reduceDomain_loop_filter [of "length domain" domain index v]
  by (simp add: reduceDomain_def)

lemma reduceDomain_single: "length domain = 1 \<Longrightarrow> reduceDomain domain index v = Inr domain"
  by (simp add: reduceDomain_def)

lemma reduceDomain_loop_subseq:
  "reduceDomain_loop domain index v i = Inr d' \<Longrightarrow> subseq d' domain"
proof (induction i arbitrary: domain)
  case 0
  then show ?case by simp
next
  case (Suc i)
  show ?case
  proof (cases "domain ! i ! index \<noteq> v")
    case True
    then have "reduceDomain_loop (take i domain @ drop (Suc i) domain) index v i = Inr d'"
      using Suc.prems by (simp split: if_splits)
    then have "subseq d' (take i domain @ drop (Suc i) domain)" by (rule Suc.IH)
    then show ?thesis using subseq_delete_nth [of i domain] by (rule subseq_order.trans)
  next
    case False
    then have "reduceDomain_loop domain index v i = Inr d'"
      using Suc.prems by (simp split: if_splits)
    then show ?thesis by (rule Suc.IH)
  qed
qed

lemma reduceDomain_subseq: "reduceDomain domain index v = Inr d' \<Longrightarrow> subseq d' domain"
  by (auto simp: reduceDomain_def reduceDomain_loop_subseq split: if_splits)

lemma reduceDomain_single_iff:
  "reduceDomain domain index v = Inr d' \<Longrightarrow> length domain = 1 \<Longrightarrow> d' = domain"
  by (simp add: reduceDomain_def)

section \<open>Domains only shrink; knowledge only grows\<close>

lemma shrinks_refl: "shrinks d d"
  by (simp add: shrinks_def)

lemma shrinks_trans: "shrinks d'' d' \<Longrightarrow> shrinks d' d \<Longrightarrow> shrinks d'' d"
  by (auto simp: shrinks_def intro: subseq_order.trans)

lemma all_shrinks_refl: "list_all2 shrinks ds ds"
  by (simp add: list_all2_same shrinks_refl)

lemma all_shrinks_trans:
  "list_all2 shrinks ds'' ds' \<Longrightarrow> list_all2 shrinks ds' ds \<Longrightarrow> list_all2 shrinks ds'' ds"
  by (rule list_all2_trans [of shrinks shrinks shrinks]) (auto intro: shrinks_trans)

lemma all_shrinks_update:
  "i < length ds \<Longrightarrow> shrinks d (ds ! i) \<Longrightarrow> list_all2 shrinks (ds[i := d]) ds"
  by (simp add: list_all2_conv_all_nth nth_list_update shrinks_refl)

lemma grows_refl: "grows s s"
  by (simp add: grows_def all_shrinks_refl)

lemma grows_trans: "grows s s' \<Longrightarrow> grows s' s'' \<Longrightarrow> grows s s''"
  unfolding grows_def by (auto intro: all_shrinks_trans)

lemma all_shrinks_get: "grows s s' \<Longrightarrow> list_all2 shrinks (get_domains s' r) (get_domains s r)"
  by (cases r) (auto simp: grows_def)

lemma reduceDomain_shrinks: "reduceDomain domain index v = Inr d' \<Longrightarrow> shrinks d' domain"
  by (auto simp: shrinks_def reduceDomain_subseq reduceDomain_single_iff)

lemma reduceNeighborDomains_inner_subseq:
  "reduceNeighborDomains_inner snapshot unknown index j = Inr d' \<Longrightarrow> subseq d' unknown"
proof (induction j arbitrary: unknown)
  case 0
  then show ?case by simp
next
  case (Suc j)
  show ?case
  proof (cases "snapshot ! j ! index")
    case True
    then have "reduceNeighborDomains_inner snapshot (take j unknown @ drop (Suc j) unknown) index j = Inr d'"
      using Suc.prems by (simp split: if_splits)
    then have "subseq d' (take j unknown @ drop (Suc j) unknown)" by (rule Suc.IH)
    then show ?thesis using subseq_delete_nth [of j unknown] by (rule subseq_order.trans)
  next
    case False
    then have "reduceNeighborDomains_inner snapshot unknown index j = Inr d'"
      using Suc.prems by (simp split: if_splits)
    then show ?thesis by (rule Suc.IH)
  qed
qed

lemma reduceNeighborDomains_loop_shrinks:
  "reduceNeighborDomains_loop s es unknown_domains index = Inr ds' \<Longrightarrow>
     list_all2 shrinks ds' unknown_domains"
proof (induction es arbitrary: unknown_domains)
  case Nil
  then show ?case by (simp add: all_shrinks_refl)
next
  case (Cons e es)
  obtain i v where e: "e = (i, v)" by (cases e)
  let ?go = "\<not> v \<and> 1 < length (unknown_domains ! i)
                \<and> (is_searching_rows s, index, i) \<notin> known_intersects s"
  show ?case
  proof (cases ?go)
    case True
    then obtain d where d:
      "reduceNeighborDomains_inner (unknown_domains ! i) (unknown_domains ! i) index
          (length (unknown_domains ! i)) = Inr d"
      and i: "i < length unknown_domains"
      and r: "reduceNeighborDomains_loop s es (unknown_domains[i := d]) index = Inr ds'"
      using Cons.prems e by (auto split: if_splits sum.splits)
    have "shrinks d (unknown_domains ! i)"
      using reduceNeighborDomains_inner_subseq [OF d] True by (simp add: shrinks_def)
    then have "list_all2 shrinks (unknown_domains[i := d]) unknown_domains"
      using i by (rule all_shrinks_update [rotated])
    then show ?thesis using Cons.IH [OF r] by (rule all_shrinks_trans [rotated])
  next
    case False
    then have "reduceNeighborDomains_loop s es unknown_domains index = Inr ds'"
      using Cons.prems e by (auto split: if_splits)
    then show ?thesis by (rule Cons.IH)
  qed
qed

lemma reduceNeighborDomains_shrinks:
  "reduceNeighborDomains s known_domain unknown_domains index = Inr ds' \<Longrightarrow>
     list_all2 shrinks ds' unknown_domains"
  unfolding reduceNeighborDomains_def by (rule reduceNeighborDomains_loop_shrinks)

lemma frame_refl: "frame b ka s s"
  by (simp add: frame_def)

lemma frame_trans: "frame b ka s s' \<Longrightarrow> frame b ka s' s'' \<Longrightarrow> frame b ka s s''"
  by (simp add: frame_def)

lemma get_put_domains: "get_domains (put_domains s b ds) r = (if r = b then ds else get_domains s r)"
  by (cases b; cases r) auto

lemma get_known_put_domains: "get_known (put_domains s b ds) k = get_known s k"
  by (cases b; cases k) auto

lemma get_add_known:
  "get_known (add_known s ka i) k = (if k = ka then insert i (get_known s ka) else get_known s k)"
  by (cases ka; cases k) auto

lemma get_domains_add_known: "get_domains (add_known s ka i) r = get_domains s r"
  by (cases ka; cases r) auto

lemma grows_put_domains:
  "list_all2 shrinks ds (get_domains s b) \<Longrightarrow> grows s (put_domains s b ds)"
  by (cases b) (auto simp: grows_def all_shrinks_refl)

lemma grows_add_known: "grows s (add_known s ka i)"
  by (cases ka) (auto simp: grows_def all_shrinks_refl)

lemma grows_add_intersect: "grows s (s\<lparr>known_intersects := insert t (known_intersects s)\<rparr>)"
  by (auto simp: grows_def all_shrinks_refl)

lemma searching_put_domains: "is_searching_rows (put_domains s b ds) = is_searching_rows s"
  by (cases b) auto

lemma searching_add_known: "is_searching_rows (add_known s ka i) = is_searching_rows s"
  by (cases ka) auto

lemma frame_put_domains: "frame b ka s (put_domains s b ds)"
  by (simp add: frame_def get_put_domains get_known_put_domains searching_put_domains)

lemma frame_add_known: "frame b ka s (add_known s ka i)"
  by (simp add: frame_def get_add_known get_domains_add_known searching_add_known)

lemma frame_add_intersect: "frame b ka s (s\<lparr>known_intersects := insert t (known_intersects s)\<rparr>)"
proof -
  have "get_domains (s\<lparr>known_intersects := insert t (known_intersects s)\<rparr>) r = get_domains s r" for r
    by (cases r) auto
  moreover have "get_known (s\<lparr>known_intersects := insert t (known_intersects s)\<rparr>) k = get_known s k" for k
    by (cases k) auto
  ultimately show ?thesis by (simp add: frame_def)
qed

lemma reduceDomains_intersects_step:
  "reduceDomains_intersects s b i xs = Inr s' \<Longrightarrow> grows s s' \<and> frame b ka s s'"
proof (induction xs arbitrary: s)
  case Nil
  then show ?case by (simp add: grows_refl frame_refl)
next
  case (Cons x xs)
  let ?ds = "get_domains s b"
  from Cons.prems obtain d where inr: "fst x < length ?ds"
    and d: "reduceDomain (?ds ! fst x) i (snd x) = Inr d"
    and r: "reduceDomains_intersects
              ((put_domains s b (?ds[fst x := d]))
                 \<lparr>known_intersects := insert (is_searching_rows s, i, fst x) (known_intersects s)\<rparr>)
              b i xs = Inr s'"
    by (auto split: if_splits sum.splits)
  let ?s1 = "put_domains s b (?ds[fst x := d])"
  let ?s2 = "?s1\<lparr>known_intersects := insert (is_searching_rows s, i, fst x) (known_intersects s)\<rparr>"
  have ki: "known_intersects ?s1 = known_intersects s" by (cases b) auto
  have "list_all2 shrinks (?ds[fst x := d]) ?ds"
    using inr reduceDomain_shrinks [OF d] by (rule all_shrinks_update)
  then have g1: "grows s ?s1" by (rule grows_put_domains)
  have g2: "grows ?s1 ?s2" using grows_add_intersect [of ?s1] ki by simp
  have f1: "frame b ka s ?s1" by (rule frame_put_domains)
  have f2: "frame b ka ?s1 ?s2" using frame_add_intersect [of b ka ?s1] ki by simp
  from Cons.IH [OF r] have "grows ?s2 s'" "frame b ka ?s2 s'" by auto
  then show ?case
    using g1 g2 f1 f2 by (blast intro: grows_trans frame_trans)
qed

lemma reduceDomains_known_step:
  "reduceDomains_known s a ka b i = Inr s' \<Longrightarrow> grows s s' \<and> frame b ka s s'"
proof (cases "length (get_domains s a ! i) = 1")
  case True
  assume "reduceDomains_known s a ka b i = Inr s'"
  then obtain ds where ds: "reduceNeighborDomains s (hd (get_domains s a ! i)) (get_domains s b) i = Inr ds"
    and s': "s' = add_known (put_domains s b ds) ka i"
    using True by (auto simp: reduceDomains_known_def split: sum.splits)
  have "grows s (put_domains s b ds)"
    using reduceNeighborDomains_shrinks [OF ds] by (rule grows_put_domains)
  moreover have "grows (put_domains s b ds) s'" unfolding s' by (rule grows_add_known)
  moreover have "frame b ka s (put_domains s b ds)" by (rule frame_put_domains)
  moreover have "frame b ka (put_domains s b ds) s'" unfolding s' by (rule frame_add_known)
  ultimately show ?thesis by (blast intro: grows_trans frame_trans)
next
  case False
  assume "reduceDomains_known s a ka b i = Inr s'"
  then have "s' = s" using False by (simp add: reduceDomains_known_def)
  then show ?thesis by (simp add: grows_refl frame_refl)
qed

lemma reduceDomains_loop_step:
  "reduceDomains_loop s a ka b is = Inr s' \<Longrightarrow> grows s s' \<and> frame b ka s s'"
proof (induction "is" arbitrary: s)
  case Nil
  then show ?case by (simp add: grows_refl frame_refl)
next
  case (Cons i "is")
  show ?case
  proof (cases "i \<in> get_known s ka")
    case True
    then have "reduceDomains_loop s a ka b is = Inr s'" using Cons.prems by simp
    then show ?thesis by (rule Cons.IH)
  next
    case False
    then obtain s1 xs s2 where s1: "reduceDomains_known s a ka b i = Inr s1"
      and xs: "getDomainIntersects s1 (get_domains s1 a ! i) i = Inr xs"
      and s2: "reduceDomains_intersects s1 b i xs = Inr s2"
      and r: "reduceDomains_loop s2 a ka b is = Inr s'"
      using Cons.prems by (auto split: sum.splits)
    from reduceDomains_known_step [OF s1] reduceDomains_intersects_step [OF s2] Cons.IH [OF r]
    show ?thesis by (blast intro: grows_trans frame_trans)
  qed
qed

lemma reduceDomains_step:
  "reduceDomains s a ka b = Inr s' \<Longrightarrow> grows s s' \<and> frame b ka s s'"
  unfolding reduceDomains_def by (rule reduceDomains_loop_step)

lemma grows_toggle: "grows s (toggle s)"
  by (simp add: grows_def toggle_def all_shrinks_refl)

lemma solve_round_grows:
  assumes "solve_round s = Inr s'"
  shows "grows s s'"
proof -
  from assms obtain s1 where s1: "reduceDomains s Row_domains Known_rows Col_domains = Inr s1"
    by (auto simp: solve_round_def split: sum.splits)
  have g1: "grows s (toggle s1)"
    using reduceDomains_step [OF s1] grows_toggle [of s1] by (blast intro: grows_trans)
  show ?thesis
  proof (cases "card (known_rows (toggle s1)) \<noteq> size_n (toggle s1)")
    case True
    then obtain s3 where s3: "reduceDomains (toggle s1) Col_domains Known_cols Row_domains = Inr s3"
      and s': "s' = toggle s3"
      using assms s1 by (auto simp: solve_round_def Let_def split: sum.splits)
    have "grows (toggle s1) s'"
      using reduceDomains_step [OF s3] grows_toggle [of s3] s' by (blast intro: grows_trans)
    with g1 show ?thesis by (rule grows_trans)
  next
    case False
    then have "s' = toggle s1" using assms s1 by (simp add: solve_round_def Let_def)
    then show ?thesis using g1 by simp
  qed
qed

lemma solve_loop_grows_aux:
  assumes "solve_loop s0 = Some y0"
  shows "\<forall>s'. y0 = Inr s' \<longrightarrow> grows s0 s'"
proof (rule solve_loop.raw_induct [where P = "\<lambda>s y. \<forall>s'. y = Inr s' \<longrightarrow> grows s s'", OF _ assms])
  fix f s y
  assume IH: "\<And>x y. f x = Some y \<Longrightarrow> \<forall>s'. y = Inr s' \<longrightarrow> grows x s'"
    and eq: "(if card (known_rows s) \<noteq> size_n s \<and> card (known_cols s) \<noteq> size_n s
              then case solve_round s of Inl e \<Rightarrow> Some (Inl e) | Inr s' \<Rightarrow> f s'
              else Some (Inr s)) = Some y"
  show "\<forall>s'. y = Inr s' \<longrightarrow> grows s s'"
  proof (cases "card (known_rows s) \<noteq> size_n s \<and> card (known_cols s) \<noteq> size_n s")
    case True
    show ?thesis
    proof (intro allI impI)
      fix s' assume y: "y = Inr s'"
      obtain s1 where s1: "solve_round s = Inr s1" and r: "f s1 = Some y"
        using eq True y by (auto split: sum.splits)
      from IH [OF r] y have "grows s1 s'" by simp
      with solve_round_grows [OF s1] show "grows s s'" by (rule grows_trans)
    qed
  next
    case False
    then have "y = Inr s" using eq by auto
    then show ?thesis by (simp add: grows_refl)
  qed
qed

lemma solve_loop_grows: "solve_loop s = Some (Inr s') \<Longrightarrow> grows s s'"
  using solve_loop_grows_aux by blast

lemma all_shrinks_domains_shrink: "list_all2 shrinks ds' ds \<Longrightarrow> domains_shrink ds ds'"
  by (auto simp: domains_shrink_def list_all2_conv_all_nth shrinks_def list_emb_length)

lemma grows_domains_shrink:
  assumes "grows s s'"
  shows "domains_shrink (row_domains s) (row_domains s')"
    and "domains_shrink (col_domains s) (col_domains s')"
  using assms by (simp_all add: grows_def all_shrinks_domains_shrink)

lemma grows_known:
  assumes "grows s s'"
  shows "known_rows s \<subseteq> known_rows s'" and "known_cols s \<subseteq> known_cols s'"
    and "known_intersects s \<subseteq> known_intersects s'"
  using assms by (simp_all add: grows_def)

section \<open>Forced cells\<close>

lemma getDomainIntersects_scan_eq:
  "\<forall>c\<in>set js. i < length c \<Longrightarrow>
     getDomainIntersects_scan js i all_true all_false
       = Inr (all_true \<and> (\<forall>c\<in>set js. c ! i), all_false \<and> (\<forall>c\<in>set js. \<not> c ! i))"
  by (induction js arbitrary: all_true all_false) auto

lemma getDomainIntersects_loop_eq:
  "\<forall>c\<in>set domain. \<forall>i\<in>set is. i < length c \<Longrightarrow>
     getDomainIntersects_loop s domain index is intersects
       = Inr (intersects @ concat (map (forced s domain index) is))"
proof (induction "is" arbitrary: intersects)
  case Nil
  then show ?case by simp
next
  case (Cons i "is")
  have scan: "getDomainIntersects_scan domain i True True
       = Inr (\<forall>c\<in>set domain. c ! i, \<forall>c\<in>set domain. \<not> c ! i)"
    using getDomainIntersects_scan_eq [of domain i True True] Cons.prems by simp
  have rest: "\<forall>c\<in>set domain. \<forall>i\<in>set is. i < length c" using Cons.prems by simp
  show ?case
    using scan Cons.IH [OF rest] by (simp add: forced_def)
qed

lemma getDomainIntersects_eq:
  assumes "domain \<noteq> []" and "\<forall>c\<in>set domain. length c = n"
  shows "getDomainIntersects s domain index = Inr (concat (map (forced s domain index) [0 ..< n]))"
proof -
  obtain d0 ds where d: "domain = d0 # ds" using assms(1) by (cases domain) auto
  then have n: "length d0 = n" using assms(2) by simp
  have "\<forall>c\<in>set domain. \<forall>i\<in>set [0 ..< n]. i < length c" using assms(2) by simp
  from getDomainIntersects_loop_eq [OF this, of s index "[]"]
  show ?thesis using d n by (simp add: getDomainIntersects_def)
qed

lemma forced_mem:
  "domain \<noteq> [] \<Longrightarrow>
   (p, v) \<in> set (forced s domain index i) \<longleftrightarrow>
     p = i \<and> (is_searching_rows s, index, i) \<notin> known_intersects s \<and> (\<forall>c\<in>set domain. c ! i = v)"
  by (cases v) (auto simp: forced_def)

lemma map_fst_forced:
  "domain \<noteq> [] \<Longrightarrow> map fst (concat (map (forced s domain index) is))
      = filter (\<lambda>i. forced s domain index i \<noteq> []) is"
proof (induction "is")
  case Nil
  then show ?case by simp
next
  case (Cons i "is")
  have "map fst (forced s domain index i) = (if forced s domain index i \<noteq> [] then [i] else [])"
    using Cons.prems by (cases domain) (auto simp: forced_def)
  then show ?case using Cons by simp
qed

section \<open>The stop condition and the loop\<close>

lemma all_shrinks_singletons:
  "list_all2 shrinks ds' ds \<Longrightarrow> \<forall>d\<in>set ds. length d = 1 \<Longrightarrow> ds' = ds"
  by (induction ds' ds rule: list_all2_induct) (auto simp: shrinks_def)

lemma reduceDomains_loop_all_known:
  "\<forall>i\<in>set is. i \<in> get_known s ka \<Longrightarrow> reduceDomains_loop s a ka b is = Inr s"
  by (induction "is") auto

lemma reduceDomains_all_known:
  "\<forall>i<length (get_domains s a). i \<in> get_known s ka \<Longrightarrow> reduceDomains s a ka b = Inr s"
  by (simp add: reduceDomains_def reduceDomains_loop_all_known)

lemma known_all:
  assumes "known_ok s a ka" and "card (get_known s ka) = length (get_domains s a)"
  shows "get_known s ka = {..<length (get_domains s a)}"
proof (rule card_subset_eq)
  show "finite {..<length (get_domains s a)}" by simp
  show "get_known s ka \<subseteq> {..<length (get_domains s a)}"
    using assms(1) by (auto simp: known_ok_def)
  show "card (get_known s ka) = card {..<length (get_domains s a)}"
    using assms(2) by simp
qed

lemma known_all_singletons:
  assumes "known_ok s a ka" and "card (get_known s ka) = length (get_domains s a)"
  shows "\<forall>d\<in>set (get_domains s a). length d = 1"
proof
  fix d assume "d \<in> set (get_domains s a)"
  then obtain i where i: "i < length (get_domains s a)" "d = get_domains s a ! i"
    by (auto simp: in_set_conv_nth)
  then have "i \<in> get_known s ka" using known_all [OF assms] by simp
  then show "length d = 1" using assms(1) i by (simp add: known_ok_def)
qed

lemma reduceDomains_after_stop:
  assumes ok: "known_ok s a ka" and card: "card (get_known s ka) = length (get_domains s a)"
  shows "reduceDomains s a ka b = Inr s"
    and "reduceDomains s b kb a = Inr s' \<Longrightarrow> kb \<noteq> ka \<Longrightarrow>
           (\<forall>r. get_domains s' r = get_domains s r) \<and> get_known s' ka = get_known s ka
           \<and> get_known s kb \<subseteq> get_known s' kb \<and> known_intersects s \<subseteq> known_intersects s'"
proof -
  show "reduceDomains s a ka b = Inr s"
    using known_all [OF ok card] by (intro reduceDomains_all_known) simp
next
  assume r: "reduceDomains s b kb a = Inr s'" and ne: "kb \<noteq> ka"
  from reduceDomains_step [OF r] have g: "grows s s'" and f: "frame a kb s s'" by auto
  have "get_domains s' a = get_domains s a"
    using all_shrinks_get [OF g, of a] known_all_singletons [OF ok card]
    by (rule all_shrinks_singletons)
  then have "\<forall>r. get_domains s' r = get_domains s r"
    using f by (auto simp: frame_def)
  moreover have "get_known s' ka = get_known s ka" using f ne by (auto simp: frame_def)
  moreover have "get_known s kb \<subseteq> get_known s' kb" using g by (cases kb) (auto simp: grows_def)
  moreover have "known_intersects s \<subseteq> known_intersects s'" using g by (simp add: grows_def)
  ultimately show "(\<forall>r. get_domains s' r = get_domains s r) \<and> get_known s' ka = get_known s ka
           \<and> get_known s kb \<subseteq> get_known s' kb \<and> known_intersects s \<subseteq> known_intersects s'"
    by simp
qed

lemma solve_loop_stuck:
  assumes ns: "card (known_rows s) \<noteq> size_n s \<and> card (known_cols s) \<noteq> size_n s"
    and same: "solve_round s = Inr s"
  shows "solve_loop s = None"
proof (rule ccontr)
  assume "solve_loop s \<noteq> None"
  then obtain y where y: "solve_loop s = Some y" by auto
  have "s \<noteq> s"
  proof (rule solve_loop.raw_induct [where P = "\<lambda>x y. x \<noteq> s", OF _ y])
    fix f x y'
    assume IH: "\<And>x y. f x = Some y \<Longrightarrow> x \<noteq> s"
      and eq: "(if card (known_rows x) \<noteq> size_n x \<and> card (known_cols x) \<noteq> size_n x
                then case solve_round x of Inl e \<Rightarrow> Some (Inl e) | Inr s' \<Rightarrow> f s'
                else Some (Inr x)) = Some y'"
    show "x \<noteq> s"
    proof
      assume "x = s"
      then have "f s = Some y'" using eq ns same by simp
      then show False using IH by blast
    qed
  qed
  then show False by simp
qed

lemma solve_loop_stop:
  "card (known_rows s) = size_n s \<or> card (known_cols s) = size_n s \<Longrightarrow> solve_loop s = Some (Inr s)"
  by (subst solve_loop.simps) auto

lemma solve_loop_continue:
  "card (known_rows s) \<noteq> size_n s \<Longrightarrow> card (known_cols s) \<noteq> size_n s \<Longrightarrow>
     solve_loop s = (case solve_round s of Inl e \<Rightarrow> Some (Inl e) | Inr s' \<Rightarrow> solve_loop s')"
  by (subst solve_loop.simps) simp

lemma known_ok_other:
  assumes "grows s s'" and "get_known s' kb = get_known s kb" and "known_ok s b kb"
  shows "known_ok s' b kb"
proof -
  have l: "list_all2 shrinks (get_domains s' b) (get_domains s b)"
    using assms(1) by (rule all_shrinks_get)
  show ?thesis
    unfolding known_ok_def
  proof
    fix i assume "i \<in> get_known s' kb"
    then have i: "i < length (get_domains s b)" "length (get_domains s b ! i) = 1"
      using assms(2,3) by (auto simp: known_ok_def)
    then have "shrinks (get_domains s' b ! i) (get_domains s b ! i)"
      using l by (simp add: list_all2_conv_all_nth)
    then have "get_domains s' b ! i = get_domains s b ! i" using i by (simp add: shrinks_def)
    then show "i < length (get_domains s' b) \<and> length (get_domains s' b ! i) = 1"
      using i list_all2_lengthD [OF l] by simp
  qed
qed

lemma other_known_ref: "\<exists>kx. kx \<noteq> (ka :: known_ref)"
  by (cases ka) auto

lemma reduceDomains_known_known_ok:
  assumes "a \<noteq> b" and "reduceDomains_known s a ka b i = Inr s1" and "known_ok s a ka"
    and "i < length (get_domains s a)"
  shows "known_ok s1 a ka \<and> get_domains s1 a = get_domains s a"
proof (cases "length (get_domains s a ! i) = 1")
  case True
  then obtain ds where s1: "s1 = add_known (put_domains s b ds) ka i"
    using assms(2) by (auto simp: reduceDomains_known_def split: sum.splits)
  have d: "get_domains s1 a = get_domains s a"
    using assms(1) by (simp add: s1 get_domains_add_known get_put_domains)
  have k: "get_known s1 ka = insert i (get_known s ka)"
    by (simp add: s1 get_add_known get_known_put_domains)
  show ?thesis using assms(3,4) True d k by (auto simp: known_ok_def)
next
  case False
  then have "s1 = s" using assms(2) by (simp add: reduceDomains_known_def)
  then show ?thesis using assms(3) by simp
qed

lemma reduceDomains_intersects_known_ok:
  assumes "a \<noteq> b" and "reduceDomains_intersects s1 b i xs = Inr s2" and "known_ok s1 a ka"
  shows "known_ok s2 a ka \<and> get_domains s2 a = get_domains s1 a"
proof -
  obtain kx where kx: "kx \<noteq> ka" using other_known_ref [of ka] by blast
  from reduceDomains_intersects_step [OF assms(2), of kx]
  have f: "frame b kx s1 s2" by simp
  have "get_domains s2 a = get_domains s1 a" "get_known s2 ka = get_known s1 ka"
    using f assms(1) kx by (auto simp: frame_def)
  then show ?thesis using assms(3) by (simp add: known_ok_def)
qed

lemma reduceDomains_loop_known_ok:
  assumes "a \<noteq> b"
  shows "reduceDomains_loop s a ka b is = Inr s' \<Longrightarrow> known_ok s a ka \<Longrightarrow>
     \<forall>i\<in>set is. i < length (get_domains s a) \<Longrightarrow> known_ok s' a ka"
proof (induction "is" arbitrary: s)
  case Nil
  then show ?case by simp
next
  case (Cons i "is")
  show ?case
  proof (cases "i \<in> get_known s ka")
    case True
    then have "reduceDomains_loop s a ka b is = Inr s'" using Cons.prems(1) by simp
    then show ?thesis using Cons.prems(2,3) by (intro Cons.IH) auto
  next
    case False
    then obtain s1 xs s2 where s1: "reduceDomains_known s a ka b i = Inr s1"
      and s2: "reduceDomains_intersects s1 b i xs = Inr s2"
      and r: "reduceDomains_loop s2 a ka b is = Inr s'"
      using Cons.prems(1) by (auto split: sum.splits)
    have i: "i < length (get_domains s a)" using Cons.prems(3) by simp
    from reduceDomains_known_known_ok [OF assms s1 Cons.prems(2) i]
    have k1: "known_ok s1 a ka" "get_domains s1 a = get_domains s a" by auto
    from reduceDomains_intersects_known_ok [OF assms s2 k1(1)]
    have k2: "known_ok s2 a ka" "get_domains s2 a = get_domains s1 a" by auto
    have "\<forall>i\<in>set is. i < length (get_domains s2 a)"
      using Cons.prems(3) k1(2) k2(2) by simp
    with r k2(1) show ?thesis by (rule Cons.IH)
  qed
qed

lemma reduceDomains_known_ok:
  assumes "a \<noteq> b" and "ka \<noteq> kb" and "reduceDomains s a ka b = Inr s'"
    and "known_ok s a ka" and "known_ok s b kb"
  shows "known_ok s' a ka \<and> known_ok s' b kb"
proof -
  have "known_ok s' a ka"
    using assms(3,4) unfolding reduceDomains_def
    by (rule reduceDomains_loop_known_ok [OF assms(1)]) simp
  moreover have "known_ok s' b kb"
  proof (rule known_ok_other)
    show "grows s s'" using reduceDomains_step [OF assms(3)] by simp
    show "get_known s' kb = get_known s kb"
      using reduceDomains_step [OF assms(3)] assms(2) by (auto simp: frame_def)
    show "known_ok s b kb" by fact
  qed
  ultimately show ?thesis by simp
qed

lemma solver_inv_toggle: "solver_inv (toggle s) = solver_inv s"
  by (simp add: solver_inv_def known_ok_def toggle_def)

lemma solve_round_inv:
  assumes "solve_round s = Inr s'" and "solver_inv s"
  shows "solver_inv s'"
proof -
  from assms(1) obtain s1 where s1: "reduceDomains s Row_domains Known_rows Col_domains = Inr s1"
    by (auto simp: solve_round_def split: sum.splits)
  have i1: "solver_inv (toggle s1)"
    using reduceDomains_known_ok [OF _ _ s1, of Known_cols] assms(2)
    by (simp add: solver_inv_def solver_inv_toggle [unfolded solver_inv_def])
  show ?thesis
  proof (cases "card (known_rows (toggle s1)) \<noteq> size_n (toggle s1)")
    case True
    then obtain s3 where s3: "reduceDomains (toggle s1) Col_domains Known_cols Row_domains = Inr s3"
      and s': "s' = toggle s3"
      using assms(1) s1 by (auto simp: solve_round_def Let_def split: sum.splits)
    have "solver_inv s3"
      using reduceDomains_known_ok [OF _ _ s3, of Known_rows] i1 by (simp add: solver_inv_def)
    then show ?thesis using s' by (simp add: solver_inv_toggle)
  next
    case False
    then have "s' = toggle s1" using assms(1) s1 by (simp add: solve_round_def Let_def)
    then show ?thesis using i1 by simp
  qed
qed

lemma solve_loop_inv_aux:
  assumes "solve_loop s0 = Some y0"
  shows "\<forall>s'. y0 = Inr s' \<longrightarrow> solver_inv s0 \<longrightarrow> solver_inv s'"
proof (rule solve_loop.raw_induct
    [where P = "\<lambda>s y. \<forall>s'. y = Inr s' \<longrightarrow> solver_inv s \<longrightarrow> solver_inv s'", OF _ assms])
  fix f s y
  assume IH: "\<And>x y. f x = Some y \<Longrightarrow> \<forall>s'. y = Inr s' \<longrightarrow> solver_inv x \<longrightarrow> solver_inv s'"
    and eq: "(if card (known_rows s) \<noteq> size_n s \<and> card (known_cols s) \<noteq> size_n s
              then case solve_round s of Inl e \<Rightarrow> Some (Inl e) | Inr s' \<Rightarrow> f s'
              else Some (Inr s)) = Some y"
  show "\<forall>s'. y = Inr s' \<longrightarrow> solver_inv s \<longrightarrow> solver_inv s'"
  proof (cases "card (known_rows s) \<noteq> size_n s \<and> card (known_cols s) \<noteq> size_n s")
    case True
    show ?thesis
    proof (intro allI impI)
      fix s' assume y: "y = Inr s'" and inv: "solver_inv s"
      obtain s1 where s1: "solve_round s = Inr s1" and r: "f s1 = Some y"
        using eq True y by (auto split: sum.splits)
      from IH [OF r] y solve_round_inv [OF s1 inv] show "solver_inv s'" by simp
    qed
  next
    case False
    then have "y = Inr s" using eq by auto
    then show ?thesis by simp
  qed
qed

lemma solve_loop_returns_stopped_aux:
  assumes "solve_loop s0 = Some y0"
  shows "\<forall>s'. y0 = Inr s' \<longrightarrow> card (known_rows s') = size_n s' \<or> card (known_cols s') = size_n s'"
proof (rule solve_loop.raw_induct
    [where P = "\<lambda>s y. \<forall>s'. y = Inr s' \<longrightarrow>
                  card (known_rows s') = size_n s' \<or> card (known_cols s') = size_n s'",
     OF _ assms])
  fix f s y
  assume IH: "\<And>x y. f x = Some y \<Longrightarrow>
        \<forall>s'. y = Inr s' \<longrightarrow> card (known_rows s') = size_n s' \<or> card (known_cols s') = size_n s'"
    and eq: "(if card (known_rows s) \<noteq> size_n s \<and> card (known_cols s) \<noteq> size_n s
              then case solve_round s of Inl e \<Rightarrow> Some (Inl e) | Inr s' \<Rightarrow> f s'
              else Some (Inr s)) = Some y"
  show "\<forall>s'. y = Inr s' \<longrightarrow> card (known_rows s') = size_n s' \<or> card (known_cols s') = size_n s'"
  proof (cases "card (known_rows s) \<noteq> size_n s \<and> card (known_cols s) \<noteq> size_n s")
    case True
    show ?thesis
    proof (intro allI impI)
      fix s' assume y: "y = Inr s'"
      obtain s1 where "solve_round s = Inr s1" and r: "f s1 = Some y"
        using eq True y by (auto split: sum.splits)
      from IH [OF r] y
      show "card (known_rows s') = size_n s' \<or> card (known_cols s') = size_n s'" by simp
    qed
  next
    case False
    then have "y = Inr s" using eq by auto
    then show ?thesis using False by auto
  qed
qed

lemma generateDomains_length:
  "generateDomains N rs ds = Inr ds' \<Longrightarrow> length ds' = length ds + length rs"
  by (induction rs arbitrary: ds) (auto split: sum.splits)

lemma solve_result:
  assumes "solve (init n rs cs) = Some (Inr s)"
  shows "solver_inv s"
    and "length (row_domains s) = length rs" and "length (col_domains s) = length cs"
    and "size_n s = n"
    and "card (known_rows s) = size_n s \<or> card (known_cols s) = size_n s"
proof -
  from assms obtain rds cds where rds: "generateDomains n rs [] = Inr rds"
    and cds: "generateDomains n cs [] = Inr cds"
    and l: "solve_loop ((init n rs cs)\<lparr>row_domains := rds, col_domains := cds\<rparr>) = Some (Inr s)"
    by (auto simp: solve_def init_def split: sum.splits)
  let ?g = "(init n rs cs)\<lparr>row_domains := rds, col_domains := cds\<rparr>"
  have "solver_inv ?g" by (simp add: solver_inv_def known_ok_def init_def)
  then show "solver_inv s" using solve_loop_inv_aux [OF l] by simp
  have g: "grows ?g s" using l by (rule solve_loop_grows)
  then have "length (row_domains s) = length rds" "length (col_domains s) = length cds"
    by (auto simp: grows_def dest: list_all2_lengthD)
  then show "length (row_domains s) = length rs" "length (col_domains s) = length cs"
    using generateDomains_length [OF rds] generateDomains_length [OF cds] by simp_all
  show "size_n s = n" using g by (simp add: grows_def init_def)
  show "card (known_rows s) = size_n s \<or> card (known_cols s) = size_n s"
    using solve_loop_returns_stopped_aux [OF l] by simp
qed

section \<open>Evaluation on small puzzles\<close>

lemma gen1: "generateDomain 1 [1] = Inr [[True]]"
  by code_simp

lemma gen1_Suc: "generateDomain (Suc 0) [1] = Inr [[True]]"
  using gen1 by simp

lemma gen2: "generateDomain 2 [1] = Inr [[True, False], [False, True]]"
  by code_simp

lemmas eval_defs =
  reduceDomains_def reduceDomains_known_def reduceNeighborDomains_def
  getDomainIntersects_def reduceDomain_def solve_round_def toggle_def Let_def

lemma ladder2_row_pass:
  "reduceDomains ladder2 Row_domains Known_rows Col_domains = Inr ladder2_rows_done"
  by (simp add: ladder2_def ladder2_rows_done_def eval_defs insert_commute)

lemma ladder2_round: "solve_round ladder2 = Inr ladder2_solved"
  by (simp add: ladder2_def ladder2_solved_def eval_defs insert_commute)

lemma ladder2_loop: "solve_loop ladder2 = Some (Inr ladder2_solved)"
proof -
  have "solve_loop ladder2 = solve_loop ladder2_solved"
    by (subst solve_loop.simps) (simp add: ladder2_round, simp add: ladder2_def)
  also have "\<dots> = Some (Inr ladder2_solved)"
    by (rule solve_loop_stop) (simp add: ladder2_solved_def)
  finally show ?thesis .
qed

lemma ladder2_neighbor:
  "reduceNeighborDomains ladder2 [True, False] [[[True, True]], [[True, False], [False, True]]] 0
     = Inr [[[True, True]], [[False, True]]]"
  by (simp add: ladder2_def eval_defs)

lemma solved1_col_pass:
  "reduceDomains solved1 Col_domains Known_cols Row_domains
     = Inr (solved1\<lparr>known_cols := {0}, known_intersects := {(False, 0, 0), (True, 0, 0)}\<rparr>)"
  by (simp add: solved1_def eval_defs)

lemma solve_puzzle1: "solve (init 1 [[1]] [[1]]) = Some (Inr solved1)"
  by (simp add: solve_def init_def gen1_Suc solve_loop.simps eval_defs solved1_def)

lemma stuck2_round: "solve_round stuck2 = Inr stuck2"
  by (simp add: stuck2_def eval_defs)

lemma stuck2_not_stopped:
  "card (known_rows stuck2) \<noteq> size_n stuck2 \<and> card (known_cols stuck2) \<noteq> size_n stuck2"
  by (simp add: stuck2_def)

lemma solve_puzzle2: "solve (init 2 [[1], [1]] [[1], [1]]) = solve_loop stuck2"
  by (simp add: solve_def init_def gen2 stuck2_def)

section \<open>The claims\<close>

text \<open>
  C1. For every line length \<open>N\<close> and every sequence \<open>nums\<close> of positive block
  lengths with \<open>sum(nums) + len(nums) - 1 \<le> N\<close>, \<open>generateDomain\<close> returns a list
  whose candidates are exactly the boolean sequences of length \<open>N\<close> whose maximal
  runs of filled cells, read left to right, have the lengths \<open>nums\<close> in order (a run is
  contiguous, and two runs are separated by at least one empty cell); for no blocks at
  all the list is the single all-empty candidate.
\<close>

theorem generateDomain_run_structure:
  assumes "\<forall>b\<in>set nums. 0 < b" and "sum_list nums + int (length nums) - 1 \<le> int N"
  shows "(\<exists>ds. generateDomain N nums = Inr ds
            \<and> set ds = {c. length c = N \<and> map int (runs c) = nums})
       \<and> generateDomain N [] = Inr [replicate N False]"
proof -
  let ?ns = "map nat nums"
  note n = nums_as_nat [OF assms(1)]
  have "map int (runs c) = nums \<longleftrightarrow> runs c = ?ns" for c
  proof
    assume "map int (runs c) = nums"
    then have "map nat (map int (runs c)) = ?ns" by simp
    then show "runs c = ?ns" by (simp add: comp_def)
  next
    assume "runs c = ?ns"
    then show "map int (runs c) = nums" using n(1) by simp
  qed
  then have "set (place N ?ns) = {c. length c = N \<and> map int (runs c) = nums}"
    using place_iff [OF n(2), of _ N] by auto
  then show ?thesis
    using generateDomain_feasible [OF assms] generateDomain_empty_spec by simp
qed

text \<open>
  The clue \<open>[1, 1]\<close> on a line of three cells has exactly one filling.
\<close>

theorem generateDomain_run_structure_witness:
  "sum_list [1, 1] + int (length [1, 1 :: int]) - 1 \<le> int 3
   \<and> (\<exists>ds. generateDomain 3 [1, 1] = Inr ds
          \<and> set ds = {c. length c = 3 \<and> map int (runs c) = [1, 1]})
   \<and> generateDomain 3 [1, 1] = Inr [[True, False, True]]"
proof -
  have h1: "\<forall>b\<in>set [1, 1 :: int]. 0 < b" by simp
  have h2: "sum_list [1, 1] + int (length [1, 1 :: int]) - 1 \<le> int 3" by simp
  have e: "generateDomain 3 [1, 1] = Inr [[True, False, True]]" by code_simp
  show ?thesis
    using h2 e generateDomain_run_structure [OF h1 h2] by blast
qed

text \<open>
  C2. For a clue that fits, the number of candidates is the binomial coefficient
  \<open>C(N - sum(nums) + 1, len(nums))\<close>, and the returned list is empty exactly when the clue
  does not fit. The count holds (\<open>generateDomain_count\<close>), and a clue too long by two
  cells or more gives the empty list (\<open>generateDomain_oversize\<close>). A clue too long by
  exactly one cell gives no list at all (\<open>generateDomain_off_by_one\<close>): here
  \<open>N = 2\<close> and \<open>nums = [1, 1]\<close>, where \<open>sum(nums) + len(nums) - 1 = 3\<close>, and the
  source raises \<open>IndexError\<close>.
\<close>

theorem generateDomain_boundary_two_blocks: "generateDomain 2 [1, 1] = Inl IndexError"
  by code_simp

text \<open>
  C3. For a clue that does not fit the generator does not fail and returns an empty
  domain, and with the correction \<open>end += 1\<close> it never writes a cell at an index
  \<open>\<ge> N\<close>. At \<open>N = 1\<close>, \<open>nums = [2]\<close> the source computes \<open>start = end = 0\<close>, the
  correction makes the loop run once with \<open>i = 0\<close>, and \<open>row_copy[1] = True\<close> is out
  of range.
\<close>

theorem generateDomain_boundary_one_block: "generateDomain 1 [2] = Inl IndexError"
  by code_simp

text \<open>
  C4. The loop of \<open>solve\<close> returns at once, and with the state as it is, when the row
  known-set or the column known-set has size \<open>N\<close>, whatever the other orientation
  looks like; otherwise it runs one more round. In a round the pass from the columns to
  the rows is skipped when the row pass has made all rows known, and runs otherwise.
\<close>

theorem solve_loop_control:
  "(card (known_rows s) = size_n s \<or> card (known_cols s) = size_n s
      \<longrightarrow> solve_loop s = Some (Inr s))
   \<and> (card (known_rows s) \<noteq> size_n s \<and> card (known_cols s) \<noteq> size_n s
      \<longrightarrow> solve_loop s =
            (case solve_round s of Inl e \<Rightarrow> Some (Inl e) | Inr s' \<Rightarrow> solve_loop s'))
   \<and> (reduceDomains s Row_domains Known_rows Col_domains = Inr s1
        \<and> card (known_rows s1) = size_n s1
      \<longrightarrow> solve_round s = Inr (toggle s1))
   \<and> (reduceDomains s Row_domains Known_rows Col_domains = Inr s1
        \<and> card (known_rows s1) \<noteq> size_n s1
      \<longrightarrow> solve_round s =
            (case reduceDomains (toggle s1) Col_domains Known_cols Row_domains of
               Inl e \<Rightarrow> Inl e
             | Inr s3 \<Rightarrow> Inr (toggle s3)))"
proof (intro conjI impI)
  assume "card (known_rows s) = size_n s \<or> card (known_cols s) = size_n s"
  then show "solve_loop s = Some (Inr s)" by (rule solve_loop_stop)
next
  assume "card (known_rows s) \<noteq> size_n s \<and> card (known_cols s) \<noteq> size_n s"
  then show "solve_loop s =
      (case solve_round s of Inl e \<Rightarrow> Some (Inl e) | Inr s' \<Rightarrow> solve_loop s')"
    by (simp add: solve_loop_continue)
next
  assume "reduceDomains s Row_domains Known_rows Col_domains = Inr s1
      \<and> card (known_rows s1) = size_n s1"
  then show "solve_round s = Inr (toggle s1)"
    by (simp add: solve_round_def toggle_def)
next
  assume "reduceDomains s Row_domains Known_rows Col_domains = Inr s1
      \<and> card (known_rows s1) \<noteq> size_n s1"
  then show "solve_round s =
      (case reduceDomains (toggle s1) Col_domains Known_cols Row_domains of
         Inl e \<Rightarrow> Inl e
       | Inr s3 \<Rightarrow> Inr (toggle s3))"
    by (simp add: solve_round_def toggle_def)
qed

text \<open>
  The solved 1 by 1 puzzle stops with no column known; the 2 by 2 puzzle
  \<open>ladder2\<close> needs its column pass; on the generated 1 by 1 puzzle the column pass is
  skipped.
\<close>

theorem solve_loop_control_witness:
  "card (known_rows solved1) = size_n solved1 \<and> known_cols solved1 = {}
   \<and> solve_loop solved1 = Some (Inr solved1)
   \<and> card (known_rows ladder2) \<noteq> size_n ladder2 \<and> card (known_cols ladder2) \<noteq> size_n ladder2
   \<and> solve_loop ladder2 = solve_loop ladder2_solved
   \<and> reduceDomains ladder2 Row_domains Known_rows Col_domains = Inr ladder2_rows_done
   \<and> card (known_rows ladder2_rows_done) \<noteq> size_n ladder2_rows_done
   \<and> solve_round ladder2 =
       (case reduceDomains (toggle ladder2_rows_done) Col_domains Known_cols Row_domains of
          Inl e \<Rightarrow> Inl e
        | Inr s3 \<Rightarrow> Inr (toggle s3))
   \<and> reduceDomains (solved1\<lparr>known_rows := {}, known_intersects := {}, is_searching_rows := True\<rparr>)
         Row_domains Known_rows Col_domains = Inr (solved1\<lparr>is_searching_rows := True\<rparr>)
   \<and> solve_round (solved1\<lparr>known_rows := {}, known_intersects := {}, is_searching_rows := True\<rparr>)
       = Inr solved1"
proof -
  let ?g1 = "solved1\<lparr>known_rows := {}, known_intersects := {}, is_searching_rows := True\<rparr>"
  have a: "card (known_rows solved1) = size_n solved1" "known_cols solved1 = {}"
    by (simp_all add: solved1_def)
  have b: "card (known_rows ladder2) \<noteq> size_n ladder2 \<and> card (known_cols ladder2) \<noteq> size_n ladder2"
    by (simp add: ladder2_def)
  have c: "card (known_rows ladder2_rows_done) \<noteq> size_n ladder2_rows_done"
    by (simp add: ladder2_rows_done_def)
  have d: "reduceDomains ?g1 Row_domains Known_rows Col_domains = Inr (solved1\<lparr>is_searching_rows := True\<rparr>)"
    by (simp add: solved1_def eval_defs)
  have e: "card (known_rows (solved1\<lparr>is_searching_rows := True\<rparr>)) = size_n (solved1\<lparr>is_searching_rows := True\<rparr>)"
    by (simp add: solved1_def)
  have f: "toggle (solved1\<lparr>is_searching_rows := True\<rparr>) = solved1"
    by (simp add: solved1_def toggle_def)
  show ?thesis
    using a b c d e f ladder2_row_pass ladder2_round
      solve_loop_control [of solved1 ladder2_rows_done]
      solve_loop_control [of ladder2 ladder2_rows_done]
      solve_loop_control [of ?g1 "solved1\<lparr>is_searching_rows := True\<rparr>"]
    by simp
qed

text \<open>
  C5, as amended. When a round returns the state it started from (no line became
  known, no intersect was recorded) and neither known-set has size \<open>N\<close>, \<open>solve\<close>
  does not notice: it never returns, neither with a result nor with a failure.
\<close>

theorem solve_no_progress_never_returns:
  assumes "card (known_rows s) \<noteq> size_n s \<and> card (known_cols s) \<noteq> size_n s"
    and "solve_round s = Inr s"
  shows "solve_loop s = None"
  using assms by (rule solve_loop_stuck)

theorem solve_no_progress_never_returns_witness:
  "card (known_rows stuck2) \<noteq> size_n stuck2 \<and> card (known_cols stuck2) \<noteq> size_n stuck2
   \<and> solve_round stuck2 = Inr stuck2 \<and> solve_loop stuck2 = None"
  using stuck2_not_stopped stuck2_round
    solve_no_progress_never_returns [OF stuck2_not_stopped stuck2_round]
  by simp

text \<open>
  C5 as stated fails: on the 2 by 2 puzzle whose clues are all \<open>[1]\<close> the first round
  changes nothing, and \<open>solve\<close> reports no failure; it does not return.
\<close>

theorem solve_no_progress_counterexample:
  "solve_round stuck2 = Inr stuck2 \<and> solve (init 2 [[1], [1]] [[1], [1]]) = None"
  using stuck2_round solve_loop_stuck [OF stuck2_not_stopped stuck2_round] solve_puzzle2
  by simp

text \<open>
  C6. For a domain whose candidates all have a cell \<open>index\<close>: a domain of exactly one
  candidate is left as it is; any other domain is left with exactly the candidates whose
  cell \<open>index\<close> equals \<open>value\<close>, in their original order; and a second call with the
  same arguments changes nothing.
\<close>

theorem reduceDomain_correct:
  assumes "\<forall>c\<in>set domain. index < length c"
  shows "(length domain = 1 \<longrightarrow> reduceDomain domain index v = Inr domain)
       \<and> (length domain \<noteq> 1 \<longrightarrow>
            reduceDomain domain index v = Inr (filter (\<lambda>c. c ! index = v) domain))
       \<and> (\<exists>d'. reduceDomain domain index v = Inr d' \<and> reduceDomain d' index v = Inr d')"
proof (cases "length domain = 1")
  case True
  then show ?thesis by (simp add: reduceDomain_single)
next
  case False
  let ?d = "filter (\<lambda>c. c ! index = v) domain"
  have r: "reduceDomain domain index v = Inr ?d"
    using False assms by (rule reduceDomain_filter)
  have "reduceDomain ?d index v = Inr ?d"
  proof (cases "length ?d = 1")
    case True
    then show ?thesis by (rule reduceDomain_single)
  next
    case False
    then have "reduceDomain ?d index v = Inr (filter (\<lambda>c. c ! index = v) ?d)"
      by (rule reduceDomain_filter) (use assms in auto)
    then show ?thesis by simp
  qed
  then show ?thesis using r False by simp
qed

theorem reduceDomain_correct_witness:
  "reduceDomain [[True, False], [False, True], [True, True]] 0 True
       = Inr [[True, False], [True, True]]
   \<and> reduceDomain [[True, False], [True, True]] 0 True = Inr [[True, False], [True, True]]
   \<and> reduceDomain [[False, True]] 0 True = Inr [[False, True]]"
proof -
  have h: "\<forall>c\<in>set [[True, False], [False, True], [True, True]]. (0::nat) < length c" by simp
  have h1: "\<forall>c\<in>set [[False, True]]. (0::nat) < length c" by simp
  show ?thesis
    using reduceDomain_correct [OF h, of True] reduceDomain_correct [OF h1, of True]
    by auto
qed

text \<open>
  C7. For a non-empty domain of candidates of length \<open>n\<close>, \<open>getDomainIntersects\<close>
  returns the pair \<open>(p, v)\<close> exactly for the positions \<open>p < n\<close> that are not recorded
  in \<open>known_intersects\<close> under the current orientation and this line index and at
  which every candidate has the value \<open>v\<close>; no position occurs twice, and the
  positions come in increasing order. The function returns the list and nothing else:
  it has no state to change.
\<close>

theorem getDomainIntersects_forced:
  assumes "domain \<noteq> []" and "\<forall>c\<in>set domain. length c = n"
  shows "\<exists>xs. getDomainIntersects s domain index = Inr xs
      \<and> (\<forall>p v. (p, v) \<in> set xs \<longleftrightarrow>
            p < n \<and> (is_searching_rows s, index, p) \<notin> known_intersects s
                  \<and> (\<forall>c\<in>set domain. c ! p = v))
      \<and> distinct (map fst xs) \<and> sorted (map fst xs)"
proof -
  let ?xs = "concat (map (forced s domain index) [0 ..< n])"
  have eq: "getDomainIntersects s domain index = Inr ?xs"
    using assms by (rule getDomainIntersects_eq)
  have mem: "(p, v) \<in> set ?xs \<longleftrightarrow>
      p < n \<and> (is_searching_rows s, index, p) \<notin> known_intersects s \<and> (\<forall>c\<in>set domain. c ! p = v)"
    for p v
    using forced_mem [OF assms(1), of p v s index] by auto
  have fst: "map fst ?xs = filter (\<lambda>i. forced s domain index i \<noteq> []) [0 ..< n]"
    using assms(1) by (rule map_fst_forced)
  have "distinct (map fst ?xs)" "sorted (map fst ?xs)"
    unfolding fst by (simp_all add: sorted_wrt_filter)
  then show ?thesis using eq mem by blast
qed

theorem getDomainIntersects_forced_witness:
  "[[True, False, True], [True, False, False]] \<noteq> ([] :: domain)
   \<and> getDomainIntersects (ladder2\<lparr>known_intersects := {(True, 0, 0)}\<rparr>)
        [[True, False, True], [True, False, False]] 0 = Inr [(1, False)]
   \<and> (\<exists>xs. getDomainIntersects (ladder2\<lparr>known_intersects := {(True, 0, 0)}\<rparr>)
              [[True, False, True], [True, False, False]] 0 = Inr xs
        \<and> distinct (map fst xs) \<and> sorted (map fst xs))"
proof -
  let ?d = "[[True, False, True], [True, False, False]]"
  have h1: "?d \<noteq> []" by simp
  have h2: "\<forall>c\<in>set ?d. length c = 3" by simp
  have e: "getDomainIntersects (ladder2\<lparr>known_intersects := {(True, 0, 0)}\<rparr>) ?d 0 = Inr [(1, False)]"
    by (simp add: ladder2_def eval_defs upt_rec)
  show ?thesis
    using h1 e
      getDomainIntersects_forced [OF h1 h2, of "ladder2\<lparr>known_intersects := {(True, 0, 0)}\<rparr>" 0]
    by auto
qed

text \<open>
  C8. Whenever \<open>reduceDomain\<close>, \<open>reduceNeighborDomains\<close>, \<open>reduceDomains\<close>, one
  round of the loop of \<open>solve\<close>, or the whole loop returns, every domain afterwards is
  a sublist of what it was before, so no domain has grown, and the number of domains of
  each orientation is unchanged.
\<close>

theorem domains_only_shrink:
  "(reduceDomain domain index v = Inr d' \<longrightarrow> subseq d' domain \<and> length d' \<le> length domain)
   \<and> (reduceNeighborDomains s known_domain unknown_domains index = Inr ds'
        \<longrightarrow> domains_shrink unknown_domains ds')
   \<and> (reduceDomains s a ka b = Inr s1
        \<longrightarrow> domains_shrink (row_domains s) (row_domains s1)
          \<and> domains_shrink (col_domains s) (col_domains s1))
   \<and> (solve_round s = Inr s2
        \<longrightarrow> domains_shrink (row_domains s) (row_domains s2)
          \<and> domains_shrink (col_domains s) (col_domains s2))
   \<and> (solve_loop s = Some (Inr s3)
        \<longrightarrow> domains_shrink (row_domains s) (row_domains s3)
          \<and> domains_shrink (col_domains s) (col_domains s3))"
proof (intro conjI impI)
  assume r: "reduceDomain domain index v = Inr d'"
  then show "subseq d' domain" by (rule reduceDomain_subseq)
  then show "length d' \<le> length domain" by (rule list_emb_length)
next
  assume "reduceNeighborDomains s known_domain unknown_domains index = Inr ds'"
  then show "domains_shrink unknown_domains ds'"
    by (intro all_shrinks_domains_shrink reduceNeighborDomains_shrinks)
next
  assume "reduceDomains s a ka b = Inr s1"
  then have "grows s s1" using reduceDomains_step by blast
  then show "domains_shrink (row_domains s) (row_domains s1)"
    and "domains_shrink (col_domains s) (col_domains s1)"
    by (rule grows_domains_shrink)+
next
  assume "solve_round s = Inr s2"
  then have "grows s s2" by (rule solve_round_grows)
  then show "domains_shrink (row_domains s) (row_domains s2)"
    and "domains_shrink (col_domains s) (col_domains s2)"
    by (rule grows_domains_shrink)+
next
  assume "solve_loop s = Some (Inr s3)"
  then have "grows s s3" by (rule solve_loop_grows)
  then show "domains_shrink (row_domains s) (row_domains s3)"
    and "domains_shrink (col_domains s) (col_domains s3)"
    by (rule grows_domains_shrink)+
qed

theorem domains_only_shrink_witness:
  "reduceDomain [[True, False], [False, True], [True, True]] 0 True
      = Inr [[True, False], [True, True]]
   \<and> length [[True, False], [True, True]] \<le> length [[True, False], [False, True], [True, True]]
   \<and> reduceNeighborDomains ladder2 [True, False]
        [[[True, True]], [[True, False], [False, True]]] 0
      = Inr [[[True, True]], [[False, True]]]
   \<and> domains_shrink [[[True, True]], [[True, False], [False, True]]]
        [[[True, True]], [[False, True]]]
   \<and> reduceDomains ladder2 Row_domains Known_rows Col_domains = Inr ladder2_rows_done
   \<and> domains_shrink (col_domains ladder2) (col_domains ladder2_rows_done)
   \<and> solve_round ladder2 = Inr ladder2_solved
   \<and> domains_shrink (row_domains ladder2) (row_domains ladder2_solved)
   \<and> solve_loop ladder2 = Some (Inr ladder2_solved)
   \<and> domains_shrink (col_domains ladder2) (col_domains ladder2_solved)"
proof -
  have e: "reduceDomain [[True, False], [False, True], [True, True]] 0 True
      = Inr [[True, False], [True, True]]"
    by (simp add: reduceDomain_def)
  note t = domains_only_shrink
    [of "[[True, False], [False, True], [True, True]]" 0 True "[[True, False], [True, True]]"
        ladder2 "[True, False]" "[[[True, True]], [[True, False], [False, True]]]"
        "[[[True, True]], [[False, True]]]" Row_domains Known_rows Col_domains
        ladder2_rows_done ladder2_solved ladder2_solved]
  show ?thesis
    using t e ladder2_neighbor ladder2_row_pass ladder2_round ladder2_loop by simp
qed

text \<open>
  C9, as amended. In a state where every line recorded as known has a domain of one
  candidate, once all rows are known a further row pass changes nothing at all, and a
  further column pass changes no domain and not the row known-set; it may add to the
  column known-set and to the recorded intersects. The same holds with rows and columns
  exchanged. Every state \<open>solve\<close> returns is such a state (\<open>solve_result\<close>).
\<close>

theorem extra_pass_after_stop:
  assumes "known_ok s Row_domains Known_rows" and "known_ok s Col_domains Known_cols"
    and "length (row_domains s) = size_n s" and "length (col_domains s) = size_n s"
  shows "(card (known_rows s) = size_n s \<longrightarrow>
            reduceDomains s Row_domains Known_rows Col_domains = Inr s
          \<and> (\<forall>s'. reduceDomains s Col_domains Known_cols Row_domains = Inr s' \<longrightarrow>
                row_domains s' = row_domains s \<and> col_domains s' = col_domains s
              \<and> known_rows s' = known_rows s \<and> known_cols s \<subseteq> known_cols s'
              \<and> known_intersects s \<subseteq> known_intersects s'))
       \<and> (card (known_cols s) = size_n s \<longrightarrow>
            reduceDomains s Col_domains Known_cols Row_domains = Inr s
          \<and> (\<forall>s'. reduceDomains s Row_domains Known_rows Col_domains = Inr s' \<longrightarrow>
                row_domains s' = row_domains s \<and> col_domains s' = col_domains s
              \<and> known_cols s' = known_cols s \<and> known_rows s \<subseteq> known_rows s'
              \<and> known_intersects s \<subseteq> known_intersects s'))"
proof (intro conjI impI allI)
  assume c: "card (known_rows s) = size_n s"
  then have c': "card (get_known s Known_rows) = length (get_domains s Row_domains)"
    using assms(3) by simp
  show "reduceDomains s Row_domains Known_rows Col_domains = Inr s"
    using assms(1) c' by (rule reduceDomains_after_stop(1))
  fix s' assume r: "reduceDomains s Col_domains Known_cols Row_domains = Inr s'"
  from reduceDomains_after_stop(2) [OF assms(1) c' r]
  have *: "(\<forall>r. get_domains s' r = get_domains s r) \<and> get_known s' Known_rows = get_known s Known_rows
      \<and> get_known s Known_cols \<subseteq> get_known s' Known_cols
      \<and> known_intersects s \<subseteq> known_intersects s'" by simp
  from * have "get_domains s' Row_domains = get_domains s Row_domains"
    "get_domains s' Col_domains = get_domains s Col_domains" by blast+
  then show "row_domains s' = row_domains s" "col_domains s' = col_domains s" by simp_all
  from * show "known_rows s' = known_rows s" "known_cols s \<subseteq> known_cols s'"
    "known_intersects s \<subseteq> known_intersects s'" by simp_all
next
  assume c: "card (known_cols s) = size_n s"
  then have c': "card (get_known s Known_cols) = length (get_domains s Col_domains)"
    using assms(4) by simp
  show "reduceDomains s Col_domains Known_cols Row_domains = Inr s"
    using assms(2) c' by (rule reduceDomains_after_stop(1))
  fix s' assume r: "reduceDomains s Row_domains Known_rows Col_domains = Inr s'"
  from reduceDomains_after_stop(2) [OF assms(2) c' r]
  have *: "(\<forall>r. get_domains s' r = get_domains s r) \<and> get_known s' Known_cols = get_known s Known_cols
      \<and> get_known s Known_rows \<subseteq> get_known s' Known_rows
      \<and> known_intersects s \<subseteq> known_intersects s'" by simp
  from * have "get_domains s' Row_domains = get_domains s Row_domains"
    "get_domains s' Col_domains = get_domains s Col_domains" by blast+
  then show "row_domains s' = row_domains s" "col_domains s' = col_domains s" by simp_all
  from * show "known_cols s' = known_cols s" "known_rows s \<subseteq> known_rows s'"
    "known_intersects s \<subseteq> known_intersects s'" by simp_all
qed

theorem extra_pass_after_stop_witness:
  "known_ok solved1 Row_domains Known_rows \<and> known_ok solved1 Col_domains Known_cols
   \<and> length (row_domains solved1) = size_n solved1
   \<and> length (col_domains solved1) = size_n solved1
   \<and> card (known_rows solved1) = size_n solved1
   \<and> reduceDomains solved1 Row_domains Known_rows Col_domains = Inr solved1
   \<and> reduceDomains solved1 Col_domains Known_cols Row_domains
       = Inr (solved1\<lparr>known_cols := {0}, known_intersects := {(False, 0, 0), (True, 0, 0)}\<rparr>)
   \<and> row_domains (solved1\<lparr>known_cols := {0}, known_intersects := {(False, 0, 0), (True, 0, 0)}\<rparr>)
       = row_domains solved1
   \<and> known_ok ladder2_solved Row_domains Known_rows
   \<and> known_ok ladder2_solved Col_domains Known_cols
   \<and> card (known_cols ladder2_solved) = size_n ladder2_solved
   \<and> reduceDomains ladder2_solved Col_domains Known_cols Row_domains = Inr ladder2_solved"
proof -
  have h: "known_ok solved1 Row_domains Known_rows" "known_ok solved1 Col_domains Known_cols"
    "length (row_domains solved1) = size_n solved1" "length (col_domains solved1) = size_n solved1"
    by (simp_all add: known_ok_def solved1_def)
  have c: "card (known_rows solved1) = size_n solved1" by (simp add: solved1_def)
  have h2: "known_ok ladder2_solved Row_domains Known_rows"
    "known_ok ladder2_solved Col_domains Known_cols"
    "length (row_domains ladder2_solved) = size_n ladder2_solved"
    "length (col_domains ladder2_solved) = size_n ladder2_solved"
    by (simp_all add: known_ok_def ladder2_solved_def)
  have c2: "card (known_cols ladder2_solved) = size_n ladder2_solved"
    by (simp add: ladder2_solved_def)
  have r1: "reduceDomains solved1 Row_domains Known_rows Col_domains = Inr solved1"
    using extra_pass_after_stop [OF h] c by blast
  have r2: "reduceDomains ladder2_solved Col_domains Known_cols Row_domains = Inr ladder2_solved"
    using extra_pass_after_stop [OF h2] c2 by blast
  have r3: "row_domains (solved1\<lparr>known_cols := {0}, known_intersects := {(False, 0, 0), (True, 0, 0)}\<rparr>)
       = row_domains solved1"
    by simp
  show ?thesis
    by (intro conjI h c r1 solved1_col_pass r3 h2(1) h2(2) c2 r2)
qed

text \<open>
  C9 as stated fails: in the state \<open>solve\<close> returns for the 1 by 1 puzzle all rows
  are known, and one more column pass adds column 0 to \<open>known_cols\<close> and a triple to
  \<open>known_intersects\<close>.
\<close>

theorem extra_pass_counterexample:
  "solve (init 1 [[1]] [[1]]) = Some (Inr solved1)
   \<and> card (known_rows solved1) = size_n solved1
   \<and> reduceDomains solved1 Col_domains Known_cols Row_domains
       = Inr (solved1\<lparr>known_cols := {0}, known_intersects := {(False, 0, 0), (True, 0, 0)}\<rparr>)
   \<and> known_cols (solved1\<lparr>known_cols := {0}, known_intersects := {(False, 0, 0), (True, 0, 0)}\<rparr>)
       \<noteq> known_cols solved1
   \<and> known_intersects (solved1\<lparr>known_cols := {0}, known_intersects := {(False, 0, 0), (True, 0, 0)}\<rparr>)
       \<noteq> known_intersects solved1"
  using solve_puzzle1 solved1_col_pass by (simp add: solved1_def)

text \<open>
  C10. A call of \<open>reduceDomains\<close> on two different lists of domains leaves
  \<open>domains_a\<close> as it is and only removes candidates from \<open>domains_b\<close>; apart from
  that it only adds indices to \<open>known_domains_a\<close> and triples to
  \<open>known_intersects\<close>. Neither it nor a round nor the whole loop removes an entry
  of a known-set or a recorded intersect.
\<close>

theorem reduceDomains_frame:
  "(a \<noteq> b \<and> reduceDomains s a ka b = Inr s' \<longrightarrow>
        get_domains s' a = get_domains s a
      \<and> domains_shrink (get_domains s b) (get_domains s' b)
      \<and> get_known s ka \<subseteq> get_known s' ka
      \<and> (\<forall>k. k \<noteq> ka \<longrightarrow> get_known s' k = get_known s k)
      \<and> known_intersects s \<subseteq> known_intersects s'
      \<and> is_searching_rows s' = is_searching_rows s
      \<and> size_n s' = size_n s \<and> rows s' = rows s \<and> cols s' = cols s)
   \<and> (solve_round s = Inr s2 \<longrightarrow>
        known_rows s \<subseteq> known_rows s2 \<and> known_cols s \<subseteq> known_cols s2
      \<and> known_intersects s \<subseteq> known_intersects s2)
   \<and> (solve_loop s = Some (Inr s3) \<longrightarrow>
        known_rows s \<subseteq> known_rows s3 \<and> known_cols s \<subseteq> known_cols s3
      \<and> known_intersects s \<subseteq> known_intersects s3)"
proof (intro conjI impI)
  assume h: "a \<noteq> b \<and> reduceDomains s a ka b = Inr s'"
  then have g: "grows s s'" and f: "frame b ka s s'" using reduceDomains_step by blast+
  show "get_domains s' a = get_domains s a" using f h by (simp add: frame_def)
  show "domains_shrink (get_domains s b) (get_domains s' b)"
    using all_shrinks_get [OF g] by (rule all_shrinks_domains_shrink)
  show "get_known s ka \<subseteq> get_known s' ka" using g by (cases ka) (simp_all add: grows_def)
  show "\<forall>k. k \<noteq> ka \<longrightarrow> get_known s' k = get_known s k" using f by (simp add: frame_def)
  show "known_intersects s \<subseteq> known_intersects s'" using g by (simp add: grows_def)
  show "is_searching_rows s' = is_searching_rows s" using f by (simp add: frame_def)
  show "size_n s' = size_n s" "rows s' = rows s" "cols s' = cols s"
    using g by (simp_all add: grows_def)
next
  assume "solve_round s = Inr s2"
  then have "grows s s2" by (rule solve_round_grows)
  then show "known_rows s \<subseteq> known_rows s2" "known_cols s \<subseteq> known_cols s2"
    "known_intersects s \<subseteq> known_intersects s2" by (rule grows_known)+
next
  assume "solve_loop s = Some (Inr s3)"
  then have "grows s s3" by (rule solve_loop_grows)
  then show "known_rows s \<subseteq> known_rows s3" "known_cols s \<subseteq> known_cols s3"
    "known_intersects s \<subseteq> known_intersects s3" by (rule grows_known)+
qed

theorem reduceDomains_frame_witness:
  "Row_domains \<noteq> Col_domains
   \<and> reduceDomains ladder2 Row_domains Known_rows Col_domains = Inr ladder2_rows_done
   \<and> get_domains ladder2_rows_done Row_domains = get_domains ladder2 Row_domains
   \<and> get_known ladder2 Known_rows \<subseteq> get_known ladder2_rows_done Known_rows
   \<and> solve_round ladder2 = Inr ladder2_solved
   \<and> known_rows ladder2 \<subseteq> known_rows ladder2_solved
   \<and> solve_loop ladder2 = Some (Inr ladder2_solved)
   \<and> known_intersects ladder2 \<subseteq> known_intersects ladder2_solved"
proof -
  have ne: "Row_domains \<noteq> Col_domains" by simp
  show ?thesis
    using ne ladder2_row_pass ladder2_round ladder2_loop
      reduceDomains_frame [of Row_domains Col_domains ladder2 Known_rows ladder2_rows_done
        ladder2_solved ladder2_solved]
    by simp
qed

end
